theory Spec2Isabelle
  imports Complex_Main "HOL-Library.Multiset" "HOL-Library.Word"
begin

section \<open>Data model of lib/compress.js\<close>

text \<open>
  The file system seen by \<^verbatim>\<open>fs.statSync\<close>, \<^verbatim>\<open>fs.readFileSync\<close> and
  \<^verbatim>\<open>fs.writeFileSync\<close>: a partial map from paths to byte contents. A path outside
  the domain cannot be read (it does not exist, or access is denied), and
  \<^verbatim>\<open>statSync\<close>/\<^verbatim>\<open>readFileSync\<close> throw on it.
\<close>

type_synonym path = string
type_synonym buffer = "8 word list"
type_synonym fs = "path \<rightharpoonup> buffer"

text \<open>The object every attempt resolves with:
  \<^verbatim>\<open>{ file, oldSize, newSize, success, retryable, errorMsg }\<close>; \<open>errorMsg = None\<close> is
  JavaScript's \<^verbatim>\<open>null\<close>. The source's field \<^verbatim>\<open>file\<close> is \<open>file_name\<close> here.\<close>

record result =
  file_name :: path
  oldSize :: nat
  newSize :: nat
  success :: bool
  retryable :: bool
  errorMsg :: "string option"

text \<open>
  What the network does during one attempt. The upload request either emits
  \<^verbatim>\<open>'error'\<close> (with \<^verbatim>\<open>e.message\<close>) or ends with a response: its status code, its
  \<^verbatim>\<open>location\<close> header (absent is \<open>None\<close>), its body, and what the download
  \<^verbatim>\<open>https.get\<close> of that location does should the code start it. The body is kept as
  the outcome of \<^verbatim>\<open>JSON.parse(body)\<close> followed by the two property reads:
  \<open>NoJson\<close> when that throws, otherwise the texts of \<^verbatim>\<open>err.error\<close> and
  \<^verbatim>\<open>err.message\<close> as the template literal prints them. The download either ends
  with the concatenated chunks (its status code is never read by the code) or emits
  \<^verbatim>\<open>'error'\<close>.

  A value of \<open>net\<close> describes an attempt whose promise settles. The code also has
  attempts that never settle: \<^verbatim>\<open>https.get\<close> throws inside the \<^verbatim>\<open>'end'\<close> handler when
  the location is not an absolute URL, \<^verbatim>\<open>fs.writeFileSync\<close> may throw there, and a
  connection may be cut without an \<^verbatim>\<open>'error'\<close> event. Then \<^verbatim>\<open>resolve\<close> is never called;
  no value of \<open>net\<close> stands for such an attempt, and in a run of the batch such an
  invocation stays pending and has no settlement. A response \<open>Response 201 (Some loc)\<close>
  is therefore meant with \<open>loc\<close> an absolute URL.
\<close>

datatype json_body = NoJson | Json string string

datatype download = DownloadEnd buffer | DownloadError string

datatype net = RequestError string | Response nat "string option" json_body download

text \<open>An exception thrown by a synchronous \<^verbatim>\<open>fs\<close> call.\<close>

datatype js_error = FsError path

text \<open>How a promise settles.\<close>

datatype 'a promise = Fulfilled 'a | Rejected js_error

text \<open>What an invocation of \<^verbatim>\<open>compressImage\<close> does besides returning, in order: the
  calls of \<^verbatim>\<open>compressOnce\<close> (with the attempt number), the three kinds of log line,
  and the calls of \<^verbatim>\<open>sleep\<close> (with the milliseconds).\<close>

datatype event =
    CompressOnce nat
  | LogCompressed
  | LogFailed
  | LogRetry nat int
  | Sleep nat

section \<open>Decimal text of a number\<close>

fun digit :: "nat \<Rightarrow> char" where
  "digit n = ''0123456789'' ! (n mod 10)"

fun show_nat :: "nat \<Rightarrow> string" where
  "show_nat n = (if n < 10 then [digit n] else show_nat (n div 10) @ [digit n])"

declare show_nat.simps [simp del]

section \<open>One attempt: compressOnce and downloadCompressed\<close>

definition NON_RETRYABLE_STATUS :: "nat set" where
  "NON_RETRYABLE_STATUS = {401, 415}"

text \<open>Truthiness of \<^verbatim>\<open>res.headers.location\<close>: a missing header and the empty string are
  falsy.\<close>

fun truthy :: "string option \<Rightarrow> bool" where
  "truthy None = False"
| "truthy (Some s) = (s \<noteq> [])"

text \<open>
  \<^verbatim>\<open>downloadCompressed(url, auth, file, oldSize, resolve)\<close>: on \<^verbatim>\<open>'end'\<close> the file is
  overwritten with the downloaded bytes and \<open>newSize\<close> is the size \<^verbatim>\<open>fs.statSync\<close>
  reports for what was just written; on \<^verbatim>\<open>'error'\<close> nothing is written.
\<close>

fun downloadCompressed :: "path \<Rightarrow> nat \<Rightarrow> download \<Rightarrow> fs \<Rightarrow> result \<times> fs" where
  "downloadCompressed f old (DownloadEnd imgData) disk =
     (\<lparr>file_name = f, oldSize = old, newSize = length imgData, success = True,
       retryable = False, errorMsg = None\<rparr>, disk(f \<mapsto> imgData))"
| "downloadCompressed f old (DownloadError m) disk =
     (\<lparr>file_name = f, oldSize = old, newSize = old, success = False,
       retryable = True, errorMsg = Some m\<rparr>, disk)"

text \<open>The error text of a rejected upload: \<^verbatim>\<open>HTTP <status>\<close> unless the body parses.\<close>

fun response_msg :: "nat \<Rightarrow> json_body \<Rightarrow> string" where
  "response_msg statusCode NoJson = ''HTTP '' @ show_nat statusCode"
| "response_msg statusCode (Json e m) = e @ '', '' @ m"

text \<open>
  \<^verbatim>\<open>compressOnce(file, apiKey)\<close>. The promise executor first calls
  \<^verbatim>\<open>fs.statSync(file)\<close> and \<^verbatim>\<open>fs.readFileSync(file)\<close>; if the path cannot be read they
  throw inside the executor and the promise is rejected (\<open>Inl\<close>). Otherwise the promise
  is resolved by exactly one of the three callbacks.
\<close>

definition compressOnce :: "path \<Rightarrow> string \<Rightarrow> net \<Rightarrow> fs \<Rightarrow> js_error + (result \<times> fs)" where
  "compressOnce f apiKey resp disk =
     (case disk f of
        None \<Rightarrow> Inl (FsError f)
      | Some buf \<Rightarrow>
          (let old = length buf in
           case resp of
             RequestError m \<Rightarrow>
               Inr (\<lparr>file_name = f, oldSize = old, newSize = old, success = False,
                     retryable = True, errorMsg = Some m\<rparr>, disk)
           | Response statusCode location body dl \<Rightarrow>
               if statusCode = 201 \<and> truthy location
               then Inr (downloadCompressed f old dl disk)
               else Inr (\<lparr>file_name = f, oldSize = old, newSize = old, success = False,
                          retryable = (statusCode \<notin> NON_RETRYABLE_STATUS),
                          errorMsg = Some (response_msg statusCode body)\<rparr>, disk)))"

section \<open>The retry loop: compressImage\<close>

text \<open>
  A numeric argument that the caller may omit: \<open>None\<close> is \<^verbatim>\<open>undefined\<close>.
  \<^verbatim>\<open>(retries || 0)\<close> replaces \<^verbatim>\<open>undefined\<close> (and \<open>0\<close> itself) by \<open>0\<close>.
\<close>

fun or_default :: "int option \<Rightarrow> int \<Rightarrow> int" where
  "or_default None d = d"
| "or_default (Some n) d = (if n = 0 then d else n)"

text \<open>
  The \<^verbatim>\<open>for\<close> loop of \<^verbatim>\<open>compressImage\<close>, from attempt number \<open>attempt\<close> on. The
  network's behaviour at the \<open>k\<close>-th attempt is \<open>nw k\<close>. The variable \<open>res\<close> is the
  source's \<^verbatim>\<open>result\<close>, \<open>None\<close> while it is still \<^verbatim>\<open>undefined\<close>. An exception of
  \<^verbatim>\<open>compressOnce\<close> leaves the \<^verbatim>\<open>async\<close> function through the \<^verbatim>\<open>await\<close>, so the
  promise of \<^verbatim>\<open>compressImage\<close> is rejected.
\<close>

function compressImage_loop ::
  "path \<Rightarrow> string \<Rightarrow> int \<Rightarrow> (nat \<Rightarrow> net) \<Rightarrow> nat \<Rightarrow> result option \<Rightarrow> fs \<Rightarrow> event list
     \<Rightarrow> result option promise \<times> fs \<times> event list" where
  "compressImage_loop f apiKey maxAttempts nw attempt res disk tr =
     (if int attempt \<le> maxAttempts then
        (case compressOnce f apiKey (nw attempt) disk of
           Inl e \<Rightarrow> (Rejected e, disk, tr @ [CompressOnce attempt])
         | Inr (r, disk') \<Rightarrow>
             if success r then
               (Fulfilled (Some r), disk', tr @ [CompressOnce attempt, LogCompressed])
             else if \<not> retryable r \<or> int attempt = maxAttempts then
               (Fulfilled (Some r), disk', tr @ [CompressOnce attempt, LogFailed])
             else
               compressImage_loop f apiKey maxAttempts nw (attempt + 1) (Some r) disk'
                 (tr @ [CompressOnce attempt, LogRetry attempt maxAttempts,
                        Sleep (attempt * 1000)]))
      else (Fulfilled res, disk, tr))"
  by pat_completeness auto
termination
  by (relation "measure (\<lambda>(f, apiKey, maxAttempts, nw, attempt, res, disk, tr).
                  nat (maxAttempts + 1 - int attempt))") auto

declare compressImage_loop.simps [simp del]

text \<open>\<^verbatim>\<open>compressImage(file, apiKey, progress, retries)\<close>; \<open>progress\<close> only feeds the
  tag printed in front of the log lines.\<close>

definition compressImage ::
  "path \<Rightarrow> string \<Rightarrow> (nat \<times> nat) option \<Rightarrow> int option \<Rightarrow> (nat \<Rightarrow> net) \<Rightarrow> fs
     \<Rightarrow> result option promise \<times> fs \<times> event list" where
  "compressImage f apiKey progress retries nw disk =
     compressImage_loop f apiKey (or_default retries 0 + 1) nw 1 None disk []"

text \<open>Reading a run: how often \<^verbatim>\<open>compressOnce\<close> was called, and the delays slept.\<close>

fun attempts :: "event list \<Rightarrow> nat" where
  "attempts [] = 0"
| "attempts (CompressOnce k # es) = Suc (attempts es)"
| "attempts (e # es) = attempts es"

fun sleeps :: "event list \<Rightarrow> nat list" where
  "sleeps [] = []"
| "sleeps (Sleep ms # es) = ms # sleeps es"
| "sleeps (e # es) = sleeps es"

text \<open>What it means for the attempt with network behaviour \<open>resp\<close> to fail with a
  retryable, respectively a non-retryable, error on the file system \<open>disk\<close>.\<close>

definition fails_retryable :: "path \<Rightarrow> string \<Rightarrow> net \<Rightarrow> fs \<Rightarrow> bool" where
  "fails_retryable f apiKey resp disk =
     (case compressOnce f apiKey resp disk of
        Inl e \<Rightarrow> False
      | Inr (r, disk') \<Rightarrow> \<not> success r \<and> retryable r)"

definition fails_non_retryable :: "path \<Rightarrow> string \<Rightarrow> net \<Rightarrow> fs \<Rightarrow> bool" where
  "fails_non_retryable f apiKey resp disk =
     (case compressOnce f apiKey resp disk of
        Inl e \<Rightarrow> False
      | Inr (r, disk') \<Rightarrow> \<not> success r \<and> \<not> retryable r)"

text \<open>The status code the remote service answered the upload with, if it answered.\<close>

fun status_of :: "net \<Rightarrow> nat option" where
  "status_of (RequestError m) = None"
| "status_of (Response statusCode location body dl) = Some statusCode"

section \<open>The summary: the reductions of compressBatch, and printSummary\<close>

record summary =
  totalOldSize :: nat
  totalNewSize :: nat
  failCount :: nat
  results :: "result list"

text \<open>The three reductions over the collected results, as \<^verbatim>\<open>reduce\<close> and
  \<^verbatim>\<open>filter(...).length\<close> compute them.\<close>

definition summarize :: "result list \<Rightarrow> summary" where
  "summarize rs =
     \<lparr>totalOldSize = foldl (\<lambda>sum r. sum + oldSize r) 0 rs,
      totalNewSize = foldl (\<lambda>sum r. sum + newSize r) 0 rs,
      failCount = length (filter (\<lambda>r. \<not> success r) rs),
      results = rs\<rparr>"

text \<open>
  \<^verbatim>\<open>x.toFixed(2)\<close> on the exact value \<open>x\<close>: the sign, then the integer \<open>n\<close> for which
  \<open>n / 100\<close> is closest to \<open>\<bar>x\<bar>\<close> (the larger one on a tie), printed with two
  decimals. The source computes \<open>x\<close> in IEEE double precision; here the quotient is
  exact, so a value whose exact quotient sits on a rounding tie while its double does
  not may print differently: for \<open>totalOldSize = 160\<close> and \<open>totalNewSize = 63\<close> the
  exact percentage is 60.625, printed 60.63 here, while the double is slightly smaller
  and the code prints 60.62. Away from such ties both agree.
\<close>

definition toFixed2 :: "rat \<Rightarrow> string" where
  "toFixed2 x =
     (let n = nat \<lfloor>\<bar>x\<bar> * 100 + 1 / 2\<rfloor>
      in (if x < 0 then ''-'' else []) @ show_nat (n div 100) @ ''.'' @
         [digit (n div 10), digit n])"

text \<open>\<^verbatim>\<open>totalOldSize ? ((totalSaved / totalOldSize) * 100).toFixed(2) : 0\<close>, as the
  template literal prints it (the number \<open>0\<close> prints as \<open>0\<close>).\<close>

definition totalPercent :: "nat \<Rightarrow> nat \<Rightarrow> string" where
  "totalPercent old new =
     (let totalSaved = int old - int new
      in if old \<noteq> 0 then toFixed2 ((of_int totalSaved / of_nat old) * 100) else ''0'')"

text \<open>\<^verbatim>\<open>formatSize(bytes)\<close> of lib/utils.js.\<close>

definition formatSize :: "int \<Rightarrow> string" where
  "formatSize bytes =
     (if bytes \<ge> 1024 * 1024 then toFixed2 (of_int bytes / (1024 * 1024)) @ '' MB''
      else toFixed2 (of_int bytes / 1024) @ '' KB'')"

text \<open>\<^verbatim>\<open>printSummary\<close>: the lines it prints, without the colour escapes (\<^verbatim>\<open>color\<close>
  returns its text unchanged when the output is not a terminal).\<close>

definition printSummary :: "nat \<Rightarrow> nat \<Rightarrow> nat \<Rightarrow> nat \<Rightarrow> string list" where
  "printSummary old new fileCount fails =
     (let totalSaved = int old - int new
      in [''\<newline>=== Summary ==='',
          ''Files: '' @ show_nat fileCount @
            (if fails > 0 then '' ('' @ show_nat fails @ '' failed)'' else []),
          ''Before: '' @ formatSize (int old),
          ''After:  '' @ formatSize (int new),
          ''Saved:  '' @ formatSize totalSaved,
          ''Ratio:  '' @ totalPercent old new @ ''%''])"

section \<open>The scheduler: compressBatch\<close>

text \<open>
  One call \<^verbatim>\<open>compressImage(currentFile, apiKey, progress, retries)\<close> made by
  \<^verbatim>\<open>next\<close>: the position of the file in \<^verbatim>\<open>files\<close>, the file, and \<^verbatim>\<open>progress\<close>
  (\<^verbatim>\<open>index\<close> and \<^verbatim>\<open>total\<close>).
\<close>

type_synonym invocation = "nat \<times> path \<times> (nat \<times> nat)"

text \<open>
  The variables of the promise executor of \<^verbatim>\<open>compressBatch\<close> (\<^verbatim>\<open>results\<close> is
  \<open>results_list\<close> here), the calls of \<^verbatim>\<open>resolve\<close> made so far (the promise is pending
  while there is none, and takes the value of the first), and the file system. Three
  more fields only record history, for stating properties: every call of
  \<^verbatim>\<open>compressImage\<close> made so far (\<open>calls\<close>), those whose promise has not settled yet
  (\<open>pending\<close>), and those whose \<^verbatim>\<open>then\<close> callback has run (\<open>fulfilled\<close>, in the order
  of \<open>results_list\<close>).
\<close>

record batch =
  index :: nat
  running :: int
  progressIndex :: nat
  results_list :: "result option list"
  resolve_calls :: "summary list"
  disk_of :: fs
  calls :: "invocation list"
  pending :: "invocation list"
  fulfilled :: "invocation list"

text \<open>The function \<^verbatim>\<open>next()\<close>: its \<^verbatim>\<open>while\<close> loop starts invocations as long as a
  slot is free and a file is left.\<close>

function next_fn :: "path list \<Rightarrow> int \<Rightarrow> batch \<Rightarrow> batch" where
  "next_fn files maxConcurrency s =
     (if running s < maxConcurrency \<and> index s < length files then
        (let currentFile = files ! index s;
             progress = (progressIndex s + 1, length files);
             c = (index s, currentFile, progress)
         in next_fn files maxConcurrency
              (s\<lparr>running := running s + 1, index := index s + 1,
                 progressIndex := progressIndex s + 1,
                 calls := calls s @ [c], pending := pending s @ [c]\<rparr>))
      else s)"
  by pat_completeness auto
termination
  by (relation "measure (\<lambda>(files, maxConcurrency, s). length files - index s)") auto

declare next_fn.simps [simp del]

text \<open>
  The callback given to \<^verbatim>\<open>then\<close>, run with the value \<open>v\<close> of the invocation \<open>c\<close>
  (\<open>None\<close> is \<^verbatim>\<open>undefined\<close>). When the last result has arrived the reductions read
  \<^verbatim>\<open>r.oldSize\<close> of every result: on an \<^verbatim>\<open>undefined\<close> one that throws, which ends the
  callback before \<^verbatim>\<open>resolve\<close> and \<^verbatim>\<open>next()\<close>.
\<close>

definition on_fulfilled :: "path list \<Rightarrow> int \<Rightarrow> invocation \<Rightarrow> result option \<Rightarrow> batch \<Rightarrow> batch" where
  "on_fulfilled files maxConcurrency c v s =
     (let s1 = s\<lparr>running := running s - 1, results_list := results_list s @ [v],
                 fulfilled := fulfilled s @ [c]\<rparr>
      in if length (results_list s1) = length files then
           (case those (results_list s1) of
              None \<Rightarrow> s1
            | Some rs \<Rightarrow>
                next_fn files maxConcurrency
                  (s1\<lparr>resolve_calls := resolve_calls s1 @ [summarize rs]\<rparr>))
         else next_fn files maxConcurrency s1)"

text \<open>
  One step of the event loop: the invocation for position \<open>pos\<close> settles, the network
  having behaved as \<open>nw\<close> during its attempts. The whole invocation is evaluated on
  the file system of this moment, while the code reads the file at the start of each
  attempt, the first time inside \<^verbatim>\<open>next()\<close>. An invocation reads and writes its own
  file only, so for a list without repeated paths both see the same bytes. For a
  repeated path the sizes \<open>oldSize\<close> and \<open>newSize\<close> of the later invocation may differ
  from the code's (it may have read the file before the earlier one wrote it); which
  invocations are made, whether they fulfil, and the \<^verbatim>\<open>file\<close>, \<open>success\<close>,
  \<open>retryable\<close> and \<open>errorMsg\<close> fields of their results do not depend on it. A rejected
  promise has no handler: nothing of the executor's state changes. A position with no
  pending invocation is no step.
\<close>

definition settle ::
  "path list \<Rightarrow> string \<Rightarrow> int \<Rightarrow> int \<Rightarrow> batch \<Rightarrow> nat \<times> (nat \<Rightarrow> net) \<Rightarrow> batch" where
  "settle files apiKey maxConcurrency retries s ev =
     (case find (\<lambda>c. fst c = fst ev) (pending s) of
        None \<Rightarrow> s
      | Some c \<Rightarrow>
          (case compressImage (fst (snd c)) apiKey (Some (snd (snd c))) (Some retries)
                  (snd ev) (disk_of s) of
             (Rejected e, disk', tr) \<Rightarrow>
               s\<lparr>pending := removeAll c (pending s), disk_of := disk'\<rparr>
           | (Fulfilled v, disk', tr) \<Rightarrow>
               on_fulfilled files maxConcurrency c v
                 (s\<lparr>pending := removeAll c (pending s), disk_of := disk'\<rparr>)))"

text \<open>The defaults of \<^verbatim>\<open>compressBatch\<close>: \<^verbatim>\<open>maxConcurrency || 5\<close> and
  \<^verbatim>\<open>retries !== undefined ? retries : 3\<close>.\<close>

fun retries_default :: "int option \<Rightarrow> int" where
  "retries_default None = 3"
| "retries_default (Some r) = r"

text \<open>
  \<^verbatim>\<open>compressBatch(files, apiKey, maxConcurrency, retries)\<close> up to its return: the
  executor sets its variables and calls \<^verbatim>\<open>next()\<close> once.
\<close>

definition compressBatch :: "path list \<Rightarrow> string \<Rightarrow> int option \<Rightarrow> int option \<Rightarrow> fs \<Rightarrow> batch" where
  "compressBatch files apiKey maxConcurrency retries disk =
     next_fn files (or_default maxConcurrency 5)
       \<lparr>index = 0, running = 0, progressIndex = 0, results_list = [], resolve_calls = [],
        disk_of = disk, calls = [], pending = [], fulfilled = []\<rparr>"

text \<open>The batch after the settlements \<open>evs\<close>, in that order. Every state the batch passes
  through between two callbacks is \<open>run\<close> of a prefix of \<open>evs\<close>.\<close>

definition run ::
  "path list \<Rightarrow> string \<Rightarrow> int option \<Rightarrow> int option \<Rightarrow> fs \<Rightarrow> (nat \<times> (nat \<Rightarrow> net)) list \<Rightarrow> batch" where
  "run files apiKey maxConcurrency retries disk evs =
     foldl (settle files apiKey (or_default maxConcurrency 5) (retries_default retries))
       (compressBatch files apiKey maxConcurrency retries disk) evs"

section \<open>The invariant of the scheduler\<close>

text \<open>The invocation that \<^verbatim>\<open>next()\<close> makes for position \<open>i\<close> of \<^verbatim>\<open>files\<close>.\<close>

definition invocation_of :: "path list \<Rightarrow> nat \<Rightarrow> invocation" where
  "invocation_of files i = (i, files ! i, (i + 1, length files))"

text \<open>
  What holds of the batch between any two callbacks: the invocations made are those for
  the positions below \<^verbatim>\<open>index\<close>; the pending and the fulfilled ones are among them,
  without repetition; \<^verbatim>\<open>running\<close> counts the invocations made whose \<^verbatim>\<open>then\<close> callback
  has not run; every result comes from the invocation at the same place of
  \<open>fulfilled\<close>; and \<^verbatim>\<open>resolve\<close> has been called at most once, with the summary of
  a complete list of results.
\<close>

definition batch_inv :: "path list \<Rightarrow> int \<Rightarrow> batch \<Rightarrow> bool" where
  "batch_inv files K s \<longleftrightarrow>
     index s \<le> length files \<and>
     progressIndex s = index s \<and>
     calls s = map (invocation_of files) [0..<index s] \<and>
     distinct (pending s @ fulfilled s) \<and>
     set (pending s @ fulfilled s) \<subseteq> set (calls s) \<and>
     running s = int (index s) - int (length (fulfilled s)) \<and>
     running s \<le> max K 0 \<and>
     list_all2 (\<lambda>v c. \<forall>r. v = Some r \<longrightarrow> file_name r = fst (snd c)) (results_list s) (fulfilled s) \<and>
     (resolve_calls s = [] \<or>
       (\<exists>rs. those (results_list s) = Some rs \<and> resolve_calls s = [summarize rs] \<and>
             length rs = length files)) \<and>
     (length (results_list s) = length files \<and> files \<noteq> [] \<and> those (results_list s) \<noteq> None
        \<longrightarrow> resolve_calls s \<noteq> [])"

text \<open>With one slot: at most the invocation made last is pending.\<close>

definition sequential :: "batch \<Rightarrow> bool" where
  "sequential s \<longleftrightarrow> (pending s = [] \<or> pending s = [last (calls s)])"

text \<open>Every result that is not \<^verbatim>\<open>undefined\<close> comes from an invocation on a file that
  could be read, and no invocation creates or removes a path.\<close>

definition from_existing :: "fs \<Rightarrow> batch \<Rightarrow> bool" where
  "from_existing disk s \<longleftrightarrow>
     dom (disk_of s) = dom disk \<and>
     list_all2 (\<lambda>v c. v \<noteq> None \<longrightarrow> fst (snd c) \<in> dom disk) (results_list s) (fulfilled s)"

text \<open>No invocation has been rejected, no result is \<^verbatim>\<open>undefined\<close>, every file can be
  read, and \<^verbatim>\<open>next()\<close> has left no slot free while a file was waiting.\<close>

definition unhindered :: "path list \<Rightarrow> int \<Rightarrow> batch \<Rightarrow> bool" where
  "unhindered files K s \<longleftrightarrow>
     set files \<subseteq> dom (disk_of s) \<and>
     set (pending s) \<union> set (fulfilled s) = set (calls s) \<and>
     those (results_list s) \<noteq> None \<and>
     (index s = length files \<or> K \<le> running s)"

section \<open>Inputs of the concrete runs\<close>

text \<open>File systems and network behaviours at which the properties below are evaluated:
  a network that always fails with a connection error, one that always accepts the upload
  and delivers two bytes, one that always answers 415, and one that fails three times
  and then succeeds.\<close>

definition one_image :: fs where
  "one_image = [''a.png'' \<mapsto> [1, 2, 3]]"

definition two_images :: fs where
  "two_images = [''a.png'' \<mapsto> [1, 2, 3], ''b.png'' \<mapsto> [1]]"

definition net_down :: "nat \<Rightarrow> net" where
  "net_down k = RequestError ''ECONNRESET''"

definition net_done :: "nat \<Rightarrow> net" where
  "net_done k = Response 201 (Some ''https://api.tinify.com/output/x'') NoJson (DownloadEnd [7, 7])"

definition net_unsupported :: "nat \<Rightarrow> net" where
  "net_unsupported k = Response 415 None NoJson (DownloadError [])"


section \<open>Properties of one attempt and of the retry loop\<close>


lemma compressOnce_Inl:
  "compressOnce f k resp disk = Inl e \<longleftrightarrow> (disk f = None \<and> e = FsError f)"
  by (auto simp: compressOnce_def Let_def split: option.splits net.splits)

lemma compressOnce_failure:
  assumes "compressOnce f k resp disk = Inr (r, disk')" "\<not> success r"
  shows "disk' = disk \<and> newSize r = oldSize r \<and> file_name r = f \<and> errorMsg r \<noteq> None
         \<and> (retryable r \<longleftrightarrow> status_of resp \<notin> {Some 401, Some 415})"
  using assms
  by (cases resp; cases "disk f")
     (auto simp: compressOnce_def Let_def NON_RETRYABLE_STATUS_def split: if_splits
           elim!: downloadCompressed.elims)

lemma compressOnce_success:
  assumes "compressOnce f k resp disk = Inr (r, disk')" "success r"
  shows "\<exists>loc body imgData. resp = Response 201 (Some loc) body (DownloadEnd imgData) \<and> loc \<noteq> []
           \<and> disk' = disk(f \<mapsto> imgData) \<and> newSize r = length imgData \<and> file_name r = f"
  using assms
  by (cases resp; cases "disk f")
     (auto simp: compressOnce_def Let_def split: if_splits elim!: downloadCompressed.elims truthy.elims)

lemma fails_retryableD:
  "fails_retryable f k resp disk \<Longrightarrow>
     \<exists>r. compressOnce f k resp disk = Inr (r, disk) \<and> \<not> success r \<and> retryable r"
  using compressOnce_failure[of f k resp disk]
  by (auto simp: fails_retryable_def split: sum.splits)

lemma loop_all_fail:
  assumes "\<forall>k. a \<le> k \<and> k \<le> M \<longrightarrow> fails_retryable f key (nw k) disk" "a \<le> M"
  shows "\<exists>r. compressOnce f key (nw M) disk = Inr (r, disk) \<and>
     compressImage_loop f key (int M) nw a res disk tr =
     (Fulfilled (Some r), disk,
      tr @ concat (map (\<lambda>k. [CompressOnce k, LogRetry k (int M), Sleep (k * 1000)]) [a..<M]) @ [CompressOnce M, LogFailed])"
  using assms
proof (induction "M - a" arbitrary: a res tr)
  case 0
  then have [simp]: "a = M" by simp
  from fails_retryableD[of f key "nw M" disk] 0 obtain r where r: "compressOnce f key (nw M) disk = Inr (r, disk)" "\<not> success r" "retryable r" by auto
  show ?case by (subst compressImage_loop.simps) (simp add: r)
next
  case (Suc n)
  then have lt: "a < M" by simp
  from fails_retryableD[of f key "nw a" disk] Suc obtain r where r: "compressOnce f key (nw a) disk = Inr (r, disk)" "\<not> success r" "retryable r" by auto
  have "\<exists>r'. compressOnce f key (nw M) disk = Inr (r', disk) \<and> compressImage_loop f key (int M) nw (Suc a) (Some r) disk (tr @ [CompressOnce a, LogRetry a (int M), Sleep (a * 1000)]) = 
     (Fulfilled (Some r'), disk,
      (tr @ [CompressOnce a, LogRetry a (int M), Sleep (a * 1000)]) @ concat (map (\<lambda>k. [CompressOnce k, LogRetry k (int M), Sleep (k * 1000)]) [Suc a..<M]) @ [CompressOnce M, LogFailed])"
    using Suc by (intro Suc(1)) auto
  then obtain r' where r': "compressOnce f key (nw M) disk = Inr (r', disk)" and IH: "compressImage_loop f key (int M) nw (Suc a) (Some r) disk (tr @ [CompressOnce a, LogRetry a (int M), Sleep (a * 1000)]) = 
     (Fulfilled (Some r'), disk,
      (tr @ [CompressOnce a, LogRetry a (int M), Sleep (a * 1000)]) @ concat (map (\<lambda>k. [CompressOnce k, LogRetry k (int M), Sleep (k * 1000)]) [Suc a..<M]) @ [CompressOnce M, LogFailed])" by blast
  have up: "[a..<M] = a # [Suc a..<M]" using lt by (simp add: upt_conv_Cons)
  show ?case using lt r' by (subst compressImage_loop.simps) (simp add: r IH up)
qed

lemma attempts_append: "attempts (xs @ ys) = attempts xs + attempts ys"
  by (induction xs rule: attempts.induct) auto

lemma sleeps_append: "sleeps (xs @ ys) = sleeps xs @ sleeps ys"
  by (induction xs rule: sleeps.induct) auto

lemma attempts_retry_block:
  "attempts (concat (map (\<lambda>k. [CompressOnce k, LogRetry k m, Sleep (k * 1000)]) ks)) = length ks"
  by (induction ks) auto

lemma sleeps_retry_block:
  "sleeps (concat (map (\<lambda>k. [CompressOnce k, LogRetry k m, Sleep (k * 1000)]) ks)) = map (\<lambda>k. k * 1000) ks"
  by (induction ks) auto

lemma loop_outcome:
  assumes "compressImage_loop f key M nw a res disk tr = (Fulfilled (Some r), disk', tr')"
    and "\<forall>r0. res = Some r0 \<longrightarrow> \<not> success r0 \<and> newSize r0 = oldSize r0 \<and> file_name r0 = f \<and> errorMsg r0 \<noteq> None \<and> disk f \<noteq> None"
  shows "file_name r = f \<and> disk f \<noteq> None \<and>
         (success r \<longrightarrow> (\<exists>k loc body imgData. a \<le> k \<and>
             nw k = Response 201 (Some loc) body (DownloadEnd imgData) \<and> loc \<noteq> [] \<and>
             disk' = disk(f \<mapsto> imgData) \<and> newSize r = length imgData)) \<and>
         (\<not> success r \<longrightarrow> disk' = disk \<and> newSize r = oldSize r \<and> errorMsg r \<noteq> None)"
  using assms
proof (induction f key M nw a res disk tr rule: compressImage_loop.induct)
  case (1 f apiKey maxAttempts nw attempt res disk tr)
  show ?case
  proof (cases "int attempt \<le> maxAttempts")
    case False
    with 1(2,3) show ?thesis by (subst (asm) compressImage_loop.simps) simp
  next
    case le: True
    show ?thesis
    proof (cases "compressOnce f apiKey (nw attempt) disk")
      case (Inl e)
      with le 1(2) show ?thesis by (subst (asm) compressImage_loop.simps) simp
    next
      case (Inr x)
      obtain r1 d1 where x: "x = (r1, d1)" by (cases x)
      have ne: "disk f \<noteq> None" using Inr compressOnce_Inl[of f apiKey "nw attempt" disk] by (cases "disk f") auto
      show ?thesis
      proof (cases "success r1")
        case True
        from compressOnce_success[OF Inr[unfolded x] True] obtain loc body imgData where
          w: "nw attempt = Response 201 (Some loc) body (DownloadEnd imgData)" "loc \<noteq> []"
             "d1 = disk(f \<mapsto> imgData)" "newSize r1 = length imgData" "file_name r1 = f"
          by blast
        have "r = r1 \<and> disk' = d1"
          using 1(2) le Inr x True by (subst (asm) compressImage_loop.simps) simp
        with w True ne show ?thesis by blast
      next
        case ns: False
        note F = compressOnce_failure[OF Inr[unfolded x] ns]
        show ?thesis
        proof (cases "\<not> retryable r1 \<or> int attempt = maxAttempts")
          case True
          with F le Inr x ns 1(2) ne show ?thesis
            by (subst (asm) compressImage_loop.simps) auto
        next
          case stay: False
          have eq: "compressImage_loop f apiKey maxAttempts nw (attempt + 1) (Some r1) d1
                 (tr @ [CompressOnce attempt, LogRetry attempt maxAttempts, Sleep (attempt * 1000)]) = (Fulfilled (Some r), disk', tr')"
            using 1(2) le Inr x ns stay by (subst (asm) compressImage_loop.simps) auto
          have "file_name r = f \<and> d1 f \<noteq> None \<and>
         (success r \<longrightarrow> (\<exists>k loc body imgData. attempt + 1 \<le> k \<and>
             nw k = Response 201 (Some loc) body (DownloadEnd imgData) \<and> loc \<noteq> [] \<and>
             disk' = d1(f \<mapsto> imgData) \<and> newSize r = length imgData)) \<and>
         (\<not> success r \<longrightarrow> disk' = d1 \<and> newSize r = oldSize r \<and> errorMsg r \<noteq> None)"
            using F ne ns by (intro 1(1)[OF le Inr x[symmetric] ns stay eq]) auto
          with F show ?thesis by (metis Suc_eq_plus1 Suc_leD)
        qed
      qed
    qed
  qed
qed

text \<open>
  \<^bold>\<open>C5.\<close> If every attempt on a file fails with a retryable error, \<^verbatim>\<open>compressImage\<close>
  with retry budget \<open>retries\<close> does exactly this, in this order: for
  \<open>k = 1, \<dots>, retries\<close> it calls \<^verbatim>\<open>compressOnce\<close> (attempt \<open>k\<close>), logs the retry and
  sleeps \<open>1000 * k\<close> milliseconds (\<open>k\<close> seconds) before the next attempt; then it makes
  attempt \<open>retries + 1\<close>, logs the failure and fulfils with the result of that last
  attempt, a failure. So there are \<open>retries + 1\<close> attempts and the delays
  \<open>1, \<dots>, retries\<close> seconds, each between the attempt that failed and the next one.
\<close>

theorem retry_bound:
  assumes "\<forall>k. 1 \<le> k \<and> k \<le> retries + 1 \<longrightarrow> fails_retryable f key (nw k) disk"
  shows "\<exists>r tr. compressImage f key progress (Some (int retries)) nw disk = (Fulfilled (Some r), disk, tr)
           \<and> compressOnce f key (nw (retries + 1)) disk = Inr (r, disk)
           \<and> \<not> success r
           \<and> tr = concat (map (\<lambda>k. [CompressOnce k, LogRetry k (int (retries + 1)), Sleep (k * 1000)])
                          [1..<retries + 1])
                  @ [CompressOnce (retries + 1), LogFailed]
           \<and> attempts tr = retries + 1
           \<and> sleeps tr = map (\<lambda>k. k * 1000) [1..<retries + 1]"
proof -
  have M: "or_default (Some (int retries)) 0 + 1 = int (retries + 1)" by simp
  from loop_all_fail[of 1 "retries + 1" f key nw disk None "[]"] assms
  obtain r where r: "compressOnce f key (nw (retries + 1)) disk = Inr (r, disk)"
    and run: "compressImage_loop f key (int (retries + 1)) nw 1 None disk [] =
     (Fulfilled (Some r), disk,
      [] @ concat (map (\<lambda>k. [CompressOnce k, LogRetry k (int (retries + 1)), Sleep (k * 1000)]) [1..<retries + 1]) @ [CompressOnce (retries + 1), LogFailed])"
    by auto
  have "\<not> success r" using assms[rule_format, of "retries + 1"] r by (simp add: fails_retryable_def)
  then show ?thesis
    unfolding compressImage_def M run using r
    by (simp add: attempts_append sleeps_append attempts_retry_block sleeps_retry_block del: upt_Suc)
qed

theorem retry_bound_witness:
  "compressImage ''a.png'' ''key'' None (Some 2) net_down one_image
     = (Fulfilled (Some \<lparr>file_name = ''a.png'', oldSize = 3, newSize = 3, success = False,
                         retryable = True, errorMsg = Some ''ECONNRESET''\<rparr>),
        one_image,
        [CompressOnce 1, LogRetry 1 3, Sleep 1000,
         CompressOnce 2, LogRetry 2 3, Sleep 2000,
         CompressOnce 3, LogFailed])"
proof -
  have h: "\<forall>k. 1 \<le> k \<and> k \<le> 2 + 1 \<longrightarrow> fails_retryable ''a.png'' ''key'' (net_down k) one_image"
    by (simp add: fails_retryable_def compressOnce_def net_down_def one_image_def)
  have u: "[1..<2 + 1] = [1, 2::nat]" by (simp add: upt_rec)
  have c: "compressOnce ''a.png'' ''key'' (net_down (2 + 1)) one_image
      = Inr (\<lparr>file_name = ''a.png'', oldSize = 3, newSize = 3, success = False,
                         retryable = True, errorMsg = Some ''ECONNRESET''\<rparr>, one_image)"
    by (simp add: compressOnce_def net_down_def one_image_def)
  from retry_bound [OF h, of None] obtain r tr where
    "compressImage ''a.png'' ''key'' None (Some (int 2)) net_down one_image = (Fulfilled (Some r), one_image, tr)"
    "compressOnce ''a.png'' ''key'' (net_down (2 + 1)) one_image = Inr (r, one_image)"
    "tr = concat (map (\<lambda>k. [CompressOnce k, LogRetry k (int (2 + 1)), Sleep (k * 1000)]) [1..<2 + 1])
                  @ [CompressOnce (2 + 1), LogFailed]"
    by blast
  then show ?thesis unfolding u c by simp
qed

text \<open>
  \<^bold>\<open>C6.\<close> A failed attempt is non-retryable exactly when the upload was answered with
  status 401 or 415; every other failure, a network error (no status) included, is
  retryable. And if the first attempt fails with a non-retryable error,
  \<^verbatim>\<open>compressImage\<close> makes that one attempt only and never sleeps, whatever the retry
  budget (omitted or not negative).
\<close>

theorem non_retryable_classification:
  "(compressOnce f key resp disk = Inr (r, disk') \<and> \<not> success r \<longrightarrow>
      (\<not> retryable r \<longleftrightarrow> status_of resp = Some 401 \<or> status_of resp = Some 415)) \<and>
   (fails_non_retryable f key (nw 1) disk \<and> 0 \<le> or_default retries 0 \<longrightarrow>
      (\<exists>r1 tr. compressImage f key progress retries nw disk = (Fulfilled (Some r1), disk, tr) \<and>
         compressOnce f key (nw 1) disk = Inr (r1, disk) \<and> attempts tr = 1 \<and> sleeps tr = []))"
proof (intro conjI impI)
  assume "compressOnce f key resp disk = Inr (r, disk') \<and> \<not> success r"
  then show "\<not> retryable r \<longleftrightarrow> status_of resp = Some 401 \<or> status_of resp = Some 415"
    using compressOnce_failure[of f key resp disk r disk'] by auto
next
  assume a: "fails_non_retryable f key (nw 1) disk \<and> 0 \<le> or_default retries 0"
  then obtain r1 d1 where r1: "compressOnce f key (nw 1) disk = Inr (r1, d1)" "\<not> success r1" "\<not> retryable r1"
    by (auto simp: fails_non_retryable_def split: sum.splits)
  with compressOnce_failure[of f key "nw 1" disk r1 d1] have d1: "d1 = disk" by simp
  have "compressImage f key progress retries nw disk = (Fulfilled (Some r1), disk, [CompressOnce 1, LogFailed])"
    unfolding compressImage_def using a r1 d1
    by (subst compressImage_loop.simps) simp
  with r1 d1 show "\<exists>r1 tr. compressImage f key progress retries nw disk = (Fulfilled (Some r1), disk, tr) \<and>
         compressOnce f key (nw 1) disk = Inr (r1, disk) \<and> attempts tr = 1 \<and> sleeps tr = []"
    by simp
qed

theorem non_retryable_classification_witness:
  "(\<not> retryable \<lparr>file_name = ''a.png'', oldSize = 3, newSize = 3, success = False, retryable = False,
                  errorMsg = Some ''HTTP 401''\<rparr>
      \<longleftrightarrow> status_of (Response 401 None NoJson (DownloadError [])) = Some 401
          \<or> status_of (Response 401 None NoJson (DownloadError [])) = Some 415) \<and>
   (\<exists>r1 tr. compressImage ''a.png'' ''key'' None (Some 3) (\<lambda>k. Response 415 None NoJson (DownloadError []))
               [''a.png'' \<mapsto> [1, 2, 3]] = (Fulfilled (Some r1), [''a.png'' \<mapsto> [1, 2, 3]], tr)
            \<and> attempts tr = 1 \<and> sleeps tr = [])"
proof -
  have s401: "show_nat 401 = ''401''" by (simp add: show_nat.simps)
  have h1: "compressOnce ''a.png'' ''key'' (Response 401 None NoJson (DownloadError [])) [''a.png'' \<mapsto> [1, 2, 3]]
      = Inr (\<lparr>file_name = ''a.png'', oldSize = 3, newSize = 3, success = False, retryable = False,
                  errorMsg = Some ''HTTP 401''\<rparr>, [''a.png'' \<mapsto> [1, 2, 3]])
      \<and> \<not> success \<lparr>file_name = ''a.png'', oldSize = 3, newSize = 3, success = False, retryable = False,
                  errorMsg = Some ''HTTP 401''\<rparr>"
    by (simp add: compressOnce_def NON_RETRYABLE_STATUS_def s401)
  have h2: "fails_non_retryable ''a.png'' ''key'' ((\<lambda>k. Response 415 None NoJson (DownloadError [])) 1)
               [''a.png'' \<mapsto> [1, 2, 3]] \<and> 0 \<le> or_default (Some 3) 0"
    by (simp add: fails_non_retryable_def compressOnce_def NON_RETRYABLE_STATUS_def)
  note t = non_retryable_classification
  from t [THEN conjunct1, rule_format, OF h1] t [THEN conjunct2, rule_format, OF h2, of None]
  show ?thesis by blast
qed

text \<open>
  \<^bold>\<open>C7.\<close> For the result \<^verbatim>\<open>compressImage\<close> fulfils with: if \<open>success\<close> is true, some
  attempt's upload was answered with status 201 and a location, the download of that
  location ended with bytes \<open>imgData\<close>, and the file now holds exactly these bytes
  (\<open>newSize\<close> is their number); if \<open>success\<close> is false the file system is unchanged and
  \<open>newSize = oldSize\<close>.
\<close>

theorem outcome_success_persisted:
  assumes "compressImage f key progress retries nw disk = (Fulfilled (Some r), disk', tr)"
  shows "(success r \<longrightarrow> (\<exists>k loc body imgData. 1 \<le> k \<and>
             nw k = Response 201 (Some loc) body (DownloadEnd imgData) \<and> loc \<noteq> [] \<and>
             disk' = disk(f \<mapsto> imgData) \<and> disk' f = Some imgData \<and> newSize r = length imgData)) \<and>
         (\<not> success r \<longrightarrow> disk' = disk \<and> newSize r = oldSize r)"
proof -
  have pre: "\<forall>r0. None = Some r0 \<longrightarrow> \<not> success r0 \<and> newSize r0 = oldSize r0 \<and>
               file_name r0 = f \<and> errorMsg r0 \<noteq> None \<and> disk f \<noteq> None"
    by simp
  note L = loop_outcome [OF assms [unfolded compressImage_def] pre]
  show ?thesis
  proof (rule conjI; rule impI)
    assume "success r"
    with L obtain k loc body imgData where
      w: "1 \<le> k" "nw k = Response 201 (Some loc) body (DownloadEnd imgData)" "loc \<noteq> []"
         "disk' = disk(f \<mapsto> imgData)" "newSize r = length imgData"
      by blast
    from w(4) have "disk' f = Some imgData" by simp
    with w show "\<exists>k loc body imgData. 1 \<le> k \<and>
             nw k = Response 201 (Some loc) body (DownloadEnd imgData) \<and> loc \<noteq> [] \<and>
             disk' = disk(f \<mapsto> imgData) \<and> disk' f = Some imgData \<and> newSize r = length imgData"
      by blast
  next
    assume "\<not> success r"
    with L show "disk' = disk \<and> newSize r = oldSize r" by blast
  qed
qed

theorem outcome_success_persisted_witness:
  "\<exists>(k::nat) loc body imgData. 1 \<le> k \<and>
      (if k = 1 then RequestError ''ECONNRESET''
       else Response 201 (Some ''https://api.tinify.com/output/x'') NoJson
              (DownloadEnd [7, 7])) = Response 201 (Some loc) body (DownloadEnd imgData) \<and>
      loc \<noteq> [] \<and>
      [''a.png'' \<mapsto> [7, 7]] = [''a.png'' \<mapsto> [1, 2, 3], ''a.png'' \<mapsto> imgData] \<and>
      [''a.png'' \<mapsto> [7, 7 :: 8 word]] ''a.png'' = Some imgData \<and>
      newSize \<lparr>file_name = ''a.png'', oldSize = 3, newSize = 2, success = True,
               retryable = False, errorMsg = None\<rparr> = length imgData"
proof -
  have h: "compressImage ''a.png'' ''key'' None (Some 1)
        (\<lambda>k. if k = 1 then RequestError ''ECONNRESET''
              else Response 201 (Some ''https://api.tinify.com/output/x'') NoJson
                     (DownloadEnd [7, 7]))
        [''a.png'' \<mapsto> [1, 2, 3]]
      = (Fulfilled (Some \<lparr>file_name = ''a.png'', oldSize = 3, newSize = 2, success = True,
                          retryable = False, errorMsg = None\<rparr>),
         [''a.png'' \<mapsto> [7, 7]],
         [CompressOnce 1, LogRetry 1 2, Sleep 1000, CompressOnce 2, LogCompressed])"
    by (simp add: compressImage_def compressImage_loop.simps compressOnce_def)
  have s: "success \<lparr>file_name = ''a.png'', oldSize = 3, newSize = 2, success = True,
                    retryable = False, errorMsg = None\<rparr>"
    by simp
  from outcome_success_persisted [OF h, THEN conjunct1, THEN mp, OF s] show ?thesis .
qed

section \<open>Properties of the summary\<close>

lemma foldl_sum: "foldl (\<lambda>sum r. sum + g r) a rs = a + sum_list (map g rs)"
  for a :: nat
  by (induction rs arbitrary: a) auto

lemma count_failed:
  "count_list (map success rs) False = length (filter (\<lambda>r. \<not> success r) rs)"
  by (induction rs) auto

lemma floor_example: "\<lfloor>(10003::rat) / 6\<rfloor> = 1667"
  by (rule floor_unique) simp_all

lemma totalPercent_example: "totalPercent 3000 2500 = ''16.67''"
  by (simp add: totalPercent_def toFixed2_def floor_example show_nat.simps)

text \<open>
  \<^bold>\<open>C8.\<close> The summary of a list of results holds the sum of the \<open>oldSize\<close> fields, the
  sum of the \<open>newSize\<close> fields and the number of results whose \<open>success\<close> is false. For
  two results with old sizes 1000 and 2000, new sizes 500 and 2000, the second one
  failed, that is 3000, 2500 and 1, and \<^verbatim>\<open>printSummary\<close> reports the ratio 16.67%.
\<close>

theorem summary_totals:
  "totalOldSize (summarize rs) = sum_list (map oldSize rs) \<and>
   totalNewSize (summarize rs) = sum_list (map newSize rs) \<and>
   failCount (summarize rs) = count_list (map success rs) False \<and>
   results (summarize rs) = rs \<and>
   summarize
     [\<lparr>file_name = f1, oldSize = 1000, newSize = 500, success = True, retryable = False,
       errorMsg = None\<rparr>,
      \<lparr>file_name = f2, oldSize = 2000, newSize = 2000, success = False, retryable = b,
       errorMsg = Some m\<rparr>]
   = \<lparr>totalOldSize = 3000, totalNewSize = 2500, failCount = 1,
      results =
        [\<lparr>file_name = f1, oldSize = 1000, newSize = 500, success = True, retryable = False,
          errorMsg = None\<rparr>,
         \<lparr>file_name = f2, oldSize = 2000, newSize = 2000, success = False, retryable = b,
          errorMsg = Some m\<rparr>]\<rparr> \<and>
   totalPercent 3000 2500 = ''16.67'' \<and>
   last (printSummary 3000 2500 2 1) = ''Ratio:  16.67%''"
  by (simp add: summarize_def foldl_sum count_failed printSummary_def totalPercent_example)

text \<open>
  \<^bold>\<open>C9.\<close> When \<open>totalOldSize\<close> is 0 the percentage is the number 0, whatever
  \<open>totalNewSize\<close> is: the quotient is not computed, and \<^verbatim>\<open>printSummary\<close> prints the
  ratio as 0%.
\<close>

theorem percent_zero_guard:
  "totalPercent 0 new = ''0'' \<and> last (printSummary 0 new fileCount fails) = ''Ratio:  0%''"
  by (simp add: totalPercent_def printSummary_def)

section \<open>Properties of the scheduler\<close>

text \<open>The equations that evaluate a run on concrete input.\<close>

lemmas run_eval = run_def compressBatch_def settle_def on_fulfilled_def next_fn.simps
  compressImage_def compressImage_loop.simps compressOnce_def summarize_def Let_def
  NON_RETRYABLE_STATUS_def show_nat.simps

lemma inj_invocation_of: "inj (invocation_of files)"
  by (auto simp: inj_def invocation_of_def)

lemma distinct_calls: "distinct (map (invocation_of files) [0..<n])"
  by (simp add: distinct_map inj_invocation_of inj_on_def invocation_of_def)

lemma length_le_calls:
  assumes "batch_inv files K s"
  shows "length (pending s) + length (fulfilled s) \<le> index s"
proof -
  have "length (pending s @ fulfilled s) = card (set (pending s @ fulfilled s))"
    using assms by (metis batch_inv_def distinct_card)
  also have "\<dots> \<le> card (set (calls s))"
    using assms by (intro card_mono) (auto simp: batch_inv_def)
  also have "\<dots> \<le> length (calls s)" by (rule card_length)
  also have "\<dots> = index s" using assms by (simp add: batch_inv_def)
  finally show ?thesis by simp
qed

lemma next_fn_stop:
  "\<not> (running s < K \<and> index s < length files) \<Longrightarrow> next_fn files K s = s"
  by (subst next_fn.simps) auto

lemma next_fn_step:
  "running s < K \<Longrightarrow> index s < length files \<Longrightarrow>
     next_fn files K s =
       next_fn files K
         (s\<lparr>running := running s + 1, index := index s + 1,
            progressIndex := progressIndex s + 1,
            calls := calls s @ [(index s, files ! index s, (progressIndex s + 1, length files))],
            pending := pending s @ [(index s, files ! index s, (progressIndex s + 1, length files))]\<rparr>)"
  by (subst next_fn.simps) (simp add: Let_def)

lemma next_fn_inv:
  "batch_inv files K s \<Longrightarrow> batch_inv files K (next_fn files K s)"
proof (induction files K s rule: next_fn.induct)
  case (1 files maxConcurrency s)
  show ?case
  proof (cases "running s < maxConcurrency \<and> index s < length files")
    case False
    then show ?thesis using 1(2) by (simp add: next_fn_stop)
  next
    case True
    let ?c = "(index s, files ! index s, (progressIndex s + 1, length files))"
    let ?s = "s\<lparr>running := running s + 1, index := index s + 1,
                 progressIndex := progressIndex s + 1,
                 calls := calls s @ [?c], pending := pending s @ [?c]\<rparr>"
    have pi: "progressIndex s = index s"
      using 1(2) by (simp add: batch_inv_def)
    have c: "(index s, files ! index s, Suc (index s), length files) = invocation_of files (index s)"
      by (simp add: invocation_of_def)
    have fresh: "invocation_of files (index s) \<notin> invocation_of files ` {0..<index s}"
      by (auto simp: invocation_of_def)
    have "batch_inv files maxConcurrency ?s"
      using 1(2) True fresh unfolding batch_inv_def
      by (auto simp: pi c)
    from 1(1)[OF True refl refl refl this] True show ?thesis
      by (simp add: next_fn_step)
  qed
qed

lemma next_fn_saturated:
  "index s \<le> length files \<Longrightarrow>
   index (next_fn files K s) = length files \<or> K \<le> running (next_fn files K s)"
proof (induction files K s rule: next_fn.induct)
  case (1 files maxConcurrency s)
  show ?case
  proof (cases "running s < maxConcurrency \<and> index s < length files")
    case False
    then show ?thesis using 1(2) by (auto simp: next_fn_stop)
  next
    case True
    from 1(1)[OF True refl refl refl] True show ?thesis
      by (simp add: next_fn_step)
  qed
qed

lemma next_fn_same:
  "results_list (next_fn files K s) = results_list s \<and>
   resolve_calls (next_fn files K s) = resolve_calls s \<and>
   disk_of (next_fn files K s) = disk_of s \<and>
   fulfilled (next_fn files K s) = fulfilled s"
proof (induction files K s rule: next_fn.induct)
  case (1 files maxConcurrency s)
  show ?case
  proof (cases "running s < maxConcurrency \<and> index s < length files")
    case False
    then show ?thesis by (simp add: next_fn_stop)
  next
    case True
    from 1[OF True refl refl refl] True show ?thesis
      by (simp add: next_fn_step)
  qed
qed

lemma on_fulfilled_fields:
  "results_list (on_fulfilled files K c v s) = results_list s @ [v] \<and>
   fulfilled (on_fulfilled files K c v s) = fulfilled s @ [c] \<and>
   disk_of (on_fulfilled files K c v s) = disk_of s"
  by (simp add: on_fulfilled_def Let_def next_fn_same split: option.splits)

lemma those_length: "those xs = Some ys \<Longrightarrow> length ys = length xs"
  by (induction xs arbitrary: ys) (auto split: option.splits)

lemma those_map_Some: "those xs = Some ys \<Longrightarrow> xs = map Some ys"
  by (induction xs arbitrary: ys) (auto split: option.splits)

lemma find_SomeD: "find P xs = Some c \<Longrightarrow> c \<in> set xs \<and> P c"
  by (induction xs) (auto split: if_splits)

lemma inv_drop_pending:
  "batch_inv files K s \<Longrightarrow> batch_inv files K (s\<lparr>pending := removeAll c (pending s), disk_of := d\<rparr>)"
  unfolding batch_inv_def by (auto simp: distinct_removeAll)

lemma inv_push:
  assumes inv: "batch_inv files K s"
    and c: "c \<in> set (calls s)" "c \<notin> set (pending s)" "c \<notin> set (fulfilled s)"
    and v: "\<forall>r. v = Some r \<longrightarrow> file_name r = fst (snd c)"
  shows "length (results_list s) + 1 \<noteq> length files \<or> those (results_list s @ [v]) = None \<Longrightarrow>
         batch_inv files K (s\<lparr>running := running s - 1, results_list := results_list s @ [v],
                 fulfilled := fulfilled s @ [c]\<rparr>)"
    and "those (results_list s @ [v]) = Some rs \<Longrightarrow> length (results_list s) + 1 = length files \<Longrightarrow>
         batch_inv files K (s\<lparr>running := running s - 1, results_list := results_list s @ [v],
                 fulfilled := fulfilled s @ [c], resolve_calls := resolve_calls s @ [summarize rs]\<rparr>)"
proof -
  have len: "length (results_list s) = length (fulfilled s)"
    using inv by (auto simp: batch_inv_def dest: list_all2_lengthD)
  have "length (fulfilled s @ [c]) = card (set (fulfilled s @ [c]))"
    using inv c by (subst distinct_card) (auto simp: batch_inv_def)
  also have "\<dots> \<le> card (set (calls s))"
    using inv c by (intro card_mono) (auto simp: batch_inv_def)
  also have "\<dots> \<le> length (calls s)" by (rule card_length)
  also have "\<dots> = index s" using inv by (simp add: batch_inv_def)
  finally have lt: "length (fulfilled s) < index s" by simp
  have le: "index s \<le> length files" using inv by (simp add: batch_inv_def)
  have small: "length (results_list s) < length files" using len lt le by simp
  have rc: "resolve_calls s = []"
  proof (rule ccontr)
    assume "resolve_calls s \<noteq> []"
    then obtain rs where "those (results_list s) = Some rs" "length rs = length files"
      using inv by (auto simp: batch_inv_def)
    with those_length[of "results_list s" rs] small show False by simp
  qed
  have l2: "list_all2 (\<lambda>v c. \<forall>r. v = Some r \<longrightarrow> file_name r = fst (snd c))
              (results_list s @ [v]) (fulfilled s @ [c])"
    using inv v by (intro list_all2_appendI) (auto simp: batch_inv_def)
  have d: "distinct (pending s @ fulfilled s @ [c])"
    using inv c by (auto simp: batch_inv_def)
  have sub: "set (pending s @ fulfilled s @ [c]) \<subseteq> set (calls s)"
    using inv c by (auto simp: batch_inv_def)
  have ru: "running s - 1 = int (index s) - int (length (fulfilled s @ [c]))" "running s - 1 \<le> max K 0"
    using inv by (auto simp: batch_inv_def)
  have basic: "progressIndex s = index s" "calls s = map (invocation_of files) [0..<index s]"
    using inv by (auto simp: batch_inv_def)
  show "batch_inv files K (s\<lparr>running := running s - 1, results_list := results_list s @ [v],
                 fulfilled := fulfilled s @ [c]\<rparr>)"
    if "length (results_list s) + 1 \<noteq> length files \<or> those (results_list s @ [v]) = None"
    unfolding batch_inv_def using le basic d sub ru l2 rc that by simp
  show "batch_inv files K (s\<lparr>running := running s - 1, results_list := results_list s @ [v],
                 fulfilled := fulfilled s @ [c], resolve_calls := resolve_calls s @ [summarize rs]\<rparr>)"
    if "those (results_list s @ [v]) = Some rs" "length (results_list s) + 1 = length files"
    unfolding batch_inv_def using le basic d sub ru l2 rc that those_length[OF that(1)] by simp
qed

lemma compressImage_file:
  "compressImage f key progress retries nw disk = (Fulfilled (Some r), disk', tr) \<Longrightarrow> file_name r = f"
  using loop_outcome[of f key _ nw 1 None disk "[]" r disk' tr] by (simp add: compressImage_def)

lemma on_fulfilled_inv:
  assumes inv: "batch_inv files K s"
    and c: "c \<in> set (calls s)" "c \<notin> set (pending s)" "c \<notin> set (fulfilled s)"
    and v: "\<forall>r. v = Some r \<longrightarrow> file_name r = fst (snd c)"
  shows "batch_inv files K (on_fulfilled files K c v s)"
proof (cases "length (results_list s) + 1 = length files")
  case False
  with inv_push(1)[OF inv c v] show ?thesis
    by (simp add: on_fulfilled_def Let_def next_fn_inv)
next
  case True
  show ?thesis
  proof (cases "those (results_list s @ [v])")
    case None
    with inv_push(1)[OF inv c v] True show ?thesis
      by (simp add: on_fulfilled_def Let_def)
  next
    case (Some rs)
    with inv_push(2)[OF inv c v Some True] True show ?thesis
      by (simp add: on_fulfilled_def Let_def next_fn_inv)
  qed
qed

lemma settle_inv:
  assumes inv: "batch_inv files K s"
  shows "batch_inv files K (settle files key K retries s ev)"
proof (cases "find (\<lambda>c. fst c = fst ev) (pending s)")
  case None
  then show ?thesis using inv by (simp add: settle_def)
next
  case (Some c)
  then have cp: "c \<in> set (pending s)" by (auto dest: find_SomeD)
  obtain p d tr where ci: "compressImage (fst (snd c)) key (Some (snd (snd c))) (Some retries) (snd ev) (disk_of s) = (p, d, tr)"
    by (metis prod_cases3)
  let ?s0 = "s\<lparr>pending := removeAll c (pending s), disk_of := d\<rparr>"
  have inv0: "batch_inv files K ?s0" using inv by (rule inv_drop_pending)
  have c0: "c \<in> set (calls ?s0)" "c \<notin> set (pending ?s0)" "c \<notin> set (fulfilled ?s0)"
    using inv cp by (auto simp: batch_inv_def)
  show ?thesis
  proof (cases p)
    case (Rejected e)
    with Some ci inv0 show ?thesis by (simp add: settle_def)
  next
    case (Fulfilled v)
    have "\<forall>r. v = Some r \<longrightarrow> file_name r = fst (snd c)"
      using ci Fulfilled by (auto dest: compressImage_file)
    from on_fulfilled_inv[OF inv0 c0 this] Some ci Fulfilled show ?thesis
      by (simp add: settle_def)
  qed
qed

lemma start_inv: "batch_inv files K
       \<lparr>index = 0, running = 0, progressIndex = 0, results_list = [], resolve_calls = [],
        disk_of = disk, calls = [], pending = [], fulfilled = []\<rparr>"
  by (simp add: batch_inv_def)

lemma run_inv: "batch_inv files (or_default K 5) (run files key K retries disk evs)"
proof (induction evs rule: rev_induct)
  case Nil
  show ?case by (simp add: run_def compressBatch_def next_fn_inv start_inv)
next
  case (snoc ev evs)
  then show ?case by (simp add: run_def settle_inv)
qed

lemma resolved_all_fulfilled:
  assumes inv: "batch_inv files K s" and rc: "resolve_calls s \<noteq> []"
  shows "set (fulfilled s) = set (map (invocation_of files) [0..<length files]) \<and>
         (\<exists>rs. results_list s = map Some rs) \<and> pending s = [] \<and> index s = length files"
proof -
  from rc inv obtain rs where rs: "those (results_list s) = Some rs" "length rs = length files"
    by (auto simp: batch_inv_def)
  have len: "length (results_list s) = length (fulfilled s)"
    using inv by (auto simp: batch_inv_def dest: list_all2_lengthD)
  have lenf: "length (fulfilled s) = length files"
    using len rs those_length[OF rs(1)] by simp
  have le: "length (pending s) + length (fulfilled s) \<le> index s" using inv by (rule length_le_calls)
  have ile: "index s \<le> length files" using inv by (simp add: batch_inv_def)
  have idx: "index s = length files" using le ile lenf by simp
  have p: "pending s = []" using le idx lenf by simp
  have calls: "calls s = map (invocation_of files) [0..<length files]"
    using inv idx by (simp add: batch_inv_def)
  have df: "distinct (fulfilled s)" "set (fulfilled s) \<subseteq> set (calls s)"
    using inv by (auto simp: batch_inv_def)
  have "card (set (calls s)) \<le> length (calls s)" by (rule card_length)
  also have "\<dots> = length (fulfilled s)" using lenf calls by simp
  also have "\<dots> = card (set (fulfilled s))" using df(1) by (simp add: distinct_card)
  finally have "card (set (calls s)) \<le> card (set (fulfilled s))" .
  with df(2) have "set (fulfilled s) = set (calls s)"
    by (intro card_seteq) auto
  with calls those_map_Some[OF rs(1)] p idx show ?thesis by auto
qed

lemma calls_determined:
  "batch_inv files K s \<Longrightarrow> c \<in> set (calls s) \<Longrightarrow> c = invocation_of files (fst c)"
  by (auto simp: batch_inv_def invocation_of_def)

lemma find_pending:
  assumes inv: "batch_inv files K s" and c: "c \<in> set (pending s)"
  shows "find (\<lambda>c'. fst c' = fst c) (pending s) = Some c"
proof (cases "find (\<lambda>c'. fst c' = fst c) (pending s)")
  case None
  then have "\<not> (\<exists>x. x \<in> set (pending s) \<and> fst x = fst c)" by (simp add: find_None_iff)
  with c show ?thesis by blast
next
  case (Some c')
  then have c': "c' \<in> set (pending s)" "fst c' = fst c" by (auto dest: find_SomeD)
  have sub: "set (pending s) \<subseteq> set (calls s)" using inv by (auto simp: batch_inv_def)
  have "c = invocation_of files (fst c)" using calls_determined[OF inv, of c] c sub by blast
  moreover have "c' = invocation_of files (fst c')"
    using calls_determined[OF inv, of c'] c'(1) sub by blast
  ultimately have "c' = c" using c'(2) by simp
  with Some show ?thesis by simp
qed

lemma settle_pending_step:
  assumes inv: "batch_inv files K s" and c: "c \<in> set (pending s)"
  shows "results_list (settle files key K retries s (fst c, nw)) =
           results_list s @
             (case fst (compressImage (fst (snd c)) key (Some (snd (snd c))) (Some retries) nw (disk_of s)) of
                Fulfilled v \<Rightarrow> [v] | Rejected e \<Rightarrow> []) \<and>
         c \<notin> set (pending (settle files key K retries s (fst c, nw))) \<and>
         disk_of (settle files key K retries s (fst c, nw)) =
           fst (snd (compressImage (fst (snd c)) key (Some (snd (snd c))) (Some retries) nw (disk_of s)))"
proof -
  obtain p d tr where ci: "compressImage (fst (snd c)) key (Some (snd (snd c))) (Some retries) nw (disk_of s) = (p, d, tr)"
    by (metis prod_cases3)
  note f = find_pending[OF inv c]
  have inv': "batch_inv files K (settle files key K retries s (fst c, nw))"
    using inv by (rule settle_inv)
  show ?thesis
  proof (cases p)
    case (Rejected e)
    with f ci show ?thesis by (simp add: settle_def)
  next
    case (Fulfilled v)
    let ?s0 = "s\<lparr>pending := removeAll c (pending s), disk_of := d\<rparr>"
    have st: "settle files key K retries s (fst c, nw) = on_fulfilled files K c v ?s0"
      using f ci Fulfilled by (simp add: settle_def)
    have "c \<in> set (fulfilled (on_fulfilled files K c v ?s0))"
      by (simp add: on_fulfilled_fields)
    moreover have "distinct (pending (on_fulfilled files K c v ?s0) @ fulfilled (on_fulfilled files K c v ?s0))"
      using inv' unfolding st by (simp add: batch_inv_def)
    ultimately have "c \<notin> set (pending (on_fulfilled files K c v ?s0))" by auto
    then show ?thesis using ci Fulfilled by (simp add: st on_fulfilled_fields)
  qed
qed

lemma next_fn_sequential:
  "batch_inv files 1 s \<Longrightarrow> sequential s \<Longrightarrow> sequential (next_fn files 1 s)"
proof (induction files "1::int" s rule: next_fn.induct)
  case (1 files s)
  show ?case
  proof (cases "running s < 1 \<and> index s < length files")
    case False
    then show ?thesis using 1(3) by (simp add: next_fn_stop)
  next
    case True
    let ?c = "(index s, files ! index s, (progressIndex s + 1, length files))"
    let ?s = "s\<lparr>running := running s + 1, index := index s + 1,
                 progressIndex := progressIndex s + 1,
                 calls := calls s @ [?c], pending := pending s @ [?c]\<rparr>"
    have step: "next_fn files 1 s = next_fn files 1 ?s"
      using True by (simp add: next_fn_step)
    have inv': "batch_inv files 1 (next_fn files 1 s)" using 1(2) by (rule next_fn_inv)
    have rs: "running s = int (index s) - int (length (fulfilled s))"
      using 1(2) by (simp add: batch_inv_def)
    with True length_le_calls[OF 1(2)] have "length (pending s) = 0" by linarith
    then have "pending s = []" by simp
    then have seq: "sequential ?s" by (simp add: sequential_def)
    have "running s = 0"
      using True length_le_calls[OF 1(2)] rs by linarith
    then have "running ?s = 1" by simp
    then have "next_fn files 1 ?s = ?s" by (intro next_fn_stop) simp
    with step seq show ?thesis by simp
  qed
qed

lemma sequential_drop:
  "sequential s \<Longrightarrow> sequential (s\<lparr>pending := removeAll c (pending s), disk_of := d\<rparr>)"
  by (auto simp: sequential_def split: if_splits)

lemma on_fulfilled_sequential:
  assumes "batch_inv files 1 (on_fulfilled files 1 c v s)" "sequential s"
    and inv: "batch_inv files 1 s"
    and c: "c \<in> set (calls s)" "c \<notin> set (pending s)" "c \<notin> set (fulfilled s)"
    and v: "\<forall>r. v = Some r \<longrightarrow> file_name r = fst (snd c)"
  shows "sequential (on_fulfilled files 1 c v s)"
proof -
  let ?s1 = "s\<lparr>running := running s - 1, results_list := results_list s @ [v],
                 fulfilled := fulfilled s @ [c]\<rparr>"
  have s1: "sequential ?s1" using assms(2) by (simp add: sequential_def)
  show ?thesis
  proof (cases "length (results_list s) + 1 = length files")
    case False
    with inv_push(1)[OF inv c v] s1 show ?thesis
      by (simp add: on_fulfilled_def Let_def next_fn_sequential)
  next
    case True
    show ?thesis
    proof (cases "those (results_list s @ [v])")
      case None
      with s1 True show ?thesis by (simp add: on_fulfilled_def Let_def)
    next
      case (Some rs)
      have "sequential (?s1\<lparr>resolve_calls := resolve_calls ?s1 @ [summarize rs]\<rparr>)"
        using s1 by (simp add: sequential_def)
      with inv_push(2)[OF inv c v Some True] Some True show ?thesis
        by (simp add: on_fulfilled_def Let_def next_fn_sequential)
    qed
  qed
qed

lemma settle_sequential:
  assumes inv: "batch_inv files 1 s" and seq: "sequential s"
  shows "sequential (settle files key 1 retries s ev)"
proof (cases "find (\<lambda>c. fst c = fst ev) (pending s)")
  case None
  then show ?thesis using seq by (simp add: settle_def)
next
  case (Some c)
  then have cp: "c \<in> set (pending s)" by (auto dest: find_SomeD)
  obtain p d tr where ci: "compressImage (fst (snd c)) key (Some (snd (snd c))) (Some retries) (snd ev) (disk_of s) = (p, d, tr)"
    by (metis prod_cases3)
  let ?s0 = "s\<lparr>pending := removeAll c (pending s), disk_of := d\<rparr>"
  have inv0: "batch_inv files 1 ?s0" using inv by (rule inv_drop_pending)
  have seq0: "sequential ?s0" using seq by (rule sequential_drop)
  have c0: "c \<in> set (calls ?s0)" "c \<notin> set (pending ?s0)" "c \<notin> set (fulfilled ?s0)"
    using inv cp by (auto simp: batch_inv_def)
  show ?thesis
  proof (cases p)
    case (Rejected e)
    with Some ci seq0 show ?thesis by (simp add: settle_def)
  next
    case (Fulfilled v)
    have v: "\<forall>r. v = Some r \<longrightarrow> file_name r = fst (snd c)"
      using ci Fulfilled by (auto dest: compressImage_file)
    from on_fulfilled_sequential[OF on_fulfilled_inv[OF inv0 c0 v] seq0 inv0 c0 v] Some ci Fulfilled
    show ?thesis by (simp add: settle_def)
  qed
qed

lemma run_snoc:
  "run files key K retries disk (evs @ [ev]) =
     settle files key (or_default K 5) (retries_default retries) (run files key K retries disk evs) ev"
  by (simp add: run_def)

lemma run_sequential: "sequential (run files key (Some 1) retries disk evs)"
proof (induction evs rule: rev_induct)
  case Nil
  have "sequential \<lparr>index = 0, running = 0, progressIndex = 0, results_list = [], resolve_calls = [],
        disk_of = disk, calls = [], pending = [], fulfilled = []\<rparr>"
    by (simp add: sequential_def)
  with start_inv[of files 1 disk] show ?case
    by (simp add: run_def compressBatch_def next_fn_sequential)
next
  case (snoc ev evs)
  from settle_sequential[OF _ snoc] run_inv[of files "Some 1" key retries disk evs]
  show ?case by (simp add: run_snoc)
qed

lemma next_fn_pending:
  "pending s = drop m (calls s) \<Longrightarrow> m \<le> length (calls s) \<Longrightarrow>
   pending (next_fn files K s) = drop m (calls (next_fn files K s))"
proof (induction files K s rule: next_fn.induct)
  case (1 files maxConcurrency s)
  show ?case
  proof (cases "running s < maxConcurrency \<and> index s < length files")
    case False
    then show ?thesis using 1(2) by (simp add: next_fn_stop)
  next
    case True
    from 1(1)[OF True refl refl refl] 1(2,3) True show ?thesis
      by (simp add: next_fn_step)
  qed
qed

lemma start_all_admitted:
  assumes "int (length files) \<le> or_default K 5"
  shows "pending (compressBatch files key K retries disk) = map (invocation_of files) [0..<length files]"
proof -
  let ?K = "or_default K 5"
  let ?i = "\<lparr>index = 0, running = 0, progressIndex = 0, results_list = [], resolve_calls = [],
        disk_of = disk, calls = [], pending = [], fulfilled = []\<rparr>"
  let ?s = "next_fn files ?K ?i"
  have inv: "batch_inv files ?K ?s" by (intro next_fn_inv start_inv)
  have f: "fulfilled ?s = []" using next_fn_same[of files ?K ?i] by simp
  have p: "pending ?s = calls ?s" using next_fn_pending[of ?i 0 files ?K] by simp
  have sat: "index ?s = length files \<or> ?K \<le> running ?s"
    by (intro next_fn_saturated) simp
  have r: "running ?s = int (index ?s)" "index ?s \<le> length files"
    using inv f by (auto simp: batch_inv_def)
  with sat assms have "index ?s = length files" by linarith
  with inv p show ?thesis by (simp add: compressBatch_def batch_inv_def)
qed

text \<open>
  \<^bold>\<open>C1.\<close> For a concurrency limit \<open>K \<ge> 1\<close>, after any sequence of settlements the
  number of invocations of \<^verbatim>\<open>compressImage\<close> that have started and not settled is at
  most \<open>K\<close>, and so is the counter \<^verbatim>\<open>running\<close>. With \<open>K = 1\<close> at most one
  invocation is pending and it is the one started last, so a file starts only after
  all earlier ones have settled. With \<open>K\<close> at least the number of files, the first
  call of \<^verbatim>\<open>next()\<close> starts every file, in input order.
\<close>

theorem concurrency_bound:
  assumes "1 \<le> K"
  shows "int (length (pending (run files key (Some K) retries disk evs))) \<le> K \<and>
         running (run files key (Some K) retries disk evs) \<le> K \<and>
         (K = 1 \<longrightarrow> pending (run files key (Some K) retries disk evs) = [] \<or>
                    pending (run files key (Some K) retries disk evs)
                      = [last (calls (run files key (Some K) retries disk evs))]) \<and>
         (int (length files) \<le> K \<longrightarrow>
            pending (compressBatch files key (Some K) retries disk)
              = map (\<lambda>i. (i, files ! i, (i + 1, length files))) [0..<length files])"
proof -
  let ?s = "run files key (Some K) retries disk evs"
  have K: "or_default (Some K) 5 = K" using assms by simp
  have inv: "batch_inv files K ?s" using run_inv[of files "Some K" key retries disk evs] K by simp
  have r: "running ?s = int (index ?s) - int (length (fulfilled ?s))" "running ?s \<le> max K 0"
    using inv by (auto simp: batch_inv_def)
  have 1: "int (length (pending ?s)) \<le> K" "running ?s \<le> K"
    using r length_le_calls[OF inv] assms by linarith+
  have 2: "K = 1 \<longrightarrow> pending ?s = [] \<or> pending ?s = [last (calls ?s)]"
    using run_sequential[of files key retries disk evs] by (auto simp: sequential_def)
  have 3: "int (length files) \<le> K \<longrightarrow>
            pending (compressBatch files key (Some K) retries disk)
              = map (\<lambda>i. (i, files ! i, (i + 1, length files))) [0..<length files]"
    using start_all_admitted[of files "Some K" key retries disk] K
    by (auto simp: invocation_of_def[abs_def])
  from 1 2 3 show ?thesis by blast
qed

theorem concurrency_bound_witness:
  "int (length (pending (run [''a'', ''b'', ''c''] ''key'' (Some 2) (Some 1)
              [''a'' \<mapsto> [1, 2, 3], ''b'' \<mapsto> [1], ''c'' \<mapsto> []]
              [(1, \<lambda>k. RequestError ''ECONNRESET'')]))) \<le> 2 \<and>
   pending (run [''a'', ''b'', ''c''] ''key'' (Some 2) (Some 1)
              [''a'' \<mapsto> [1, 2, 3], ''b'' \<mapsto> [1], ''c'' \<mapsto> []]
              [(1, \<lambda>k. RequestError ''ECONNRESET'')])
     = [(0, ''a'', 1, 3), (2, ''c'', 3, 3)] \<and>
   (pending (run [''a'', ''b'', ''c''] ''key'' (Some 1) (Some 1)
              [''a'' \<mapsto> [1, 2, 3], ''b'' \<mapsto> [1], ''c'' \<mapsto> []]
              [(0, \<lambda>k. RequestError ''ECONNRESET'')]) = [] \<or>
    pending (run [''a'', ''b'', ''c''] ''key'' (Some 1) (Some 1)
              [''a'' \<mapsto> [1, 2, 3], ''b'' \<mapsto> [1], ''c'' \<mapsto> []]
              [(0, \<lambda>k. RequestError ''ECONNRESET'')])
     = [last (calls (run [''a'', ''b'', ''c''] ''key'' (Some 1) (Some 1)
              [''a'' \<mapsto> [1, 2, 3], ''b'' \<mapsto> [1], ''c'' \<mapsto> []]
              [(0, \<lambda>k. RequestError ''ECONNRESET'')]))]) \<and>
   pending (compressBatch [''a'', ''b'', ''c''] ''key'' (Some 3) (Some 1)
              [''a'' \<mapsto> [1, 2, 3], ''b'' \<mapsto> [1], ''c'' \<mapsto> []])
     = [(0, ''a'', 1, 3), (1, ''b'', 2, 3), (2, ''c'', 3, 3)]"
proof -
  have k2: "(1::int) \<le> 2" and k1: "(1::int) \<le> 1" and k3: "(1::int) \<le> 3" by simp_all
  have u: "[0..<length [''a'', ''b'', ''c'']] = [0, 1, 2]" by (simp add: upt_rec)
  have e: "pending (run [''a'', ''b'', ''c''] ''key'' (Some 2) (Some 1)
              [''a'' \<mapsto> [1, 2, 3], ''b'' \<mapsto> [1], ''c'' \<mapsto> []]
              [(1, \<lambda>k. RequestError ''ECONNRESET'')])
     = [(0, ''a'', 1, 3), (2, ''c'', 3, 3)]"
    by (simp add: run_eval)
  from concurrency_bound [OF k2, where files = "[''a'', ''b'', ''c'']" and key = "''key''"
      and retries = "Some 1" and disk = "[''a'' \<mapsto> [1, 2, 3], ''b'' \<mapsto> [1], ''c'' \<mapsto> []]"
      and evs = "[(1, \<lambda>k. RequestError ''ECONNRESET'')]"]
    concurrency_bound [OF k1, where files = "[''a'', ''b'', ''c'']" and key = "''key''"
      and retries = "Some 1" and disk = "[''a'' \<mapsto> [1, 2, 3], ''b'' \<mapsto> [1], ''c'' \<mapsto> []]"
      and evs = "[(0, \<lambda>k. RequestError ''ECONNRESET'')]"]
    concurrency_bound [OF k3, where files = "[''a'', ''b'', ''c'']" and key = "''key''"
      and retries = "Some 1" and disk = "[''a'' \<mapsto> [1, 2, 3], ''b'' \<mapsto> [1], ''c'' \<mapsto> []]"
      and evs = "[]"]
    e
  show ?thesis unfolding u by simp
qed

lemma list_all2_file_names:
  "list_all2 (\<lambda>v c. \<forall>r. v = Some r \<longrightarrow> file_name r = fst (snd c)) (map Some rs) cs \<Longrightarrow>
     map file_name rs = map (fst \<circ> snd) cs"
  by (induction rs arbitrary: cs) (auto simp: list_all2_Cons1)

lemma once_each:
  assumes "mset (map file_name rs) = mset files" "distinct files" "f \<in> set files"
  shows "length (filter (\<lambda>r. file_name r = f) rs) = 1"
proof -
  have "length (filter (\<lambda>r. file_name r = f) rs) = count (mset (map file_name rs)) f"
    by (induction rs) auto
  also have "\<dots> = count (mset files) f" using assms(1) by simp
  also have "\<dots> = 1" using assms(2,3) by (simp add: distinct_count_atmost_1)
  finally show ?thesis .
qed

lemma files_of_calls:
  "map (fst \<circ> snd) (map (invocation_of files) [0..<length files]) = files"
  by (simp add: invocation_of_def comp_def map_nth)

lemma settle_no_pending: "pending s = [] \<Longrightarrow> settle files key K retries s ev = s"
  by (simp add: settle_def)

text \<open>
  \<^bold>\<open>C4.\<close> The behaviour of the code on the empty file list: \<^verbatim>\<open>next()\<close> starts no
  invocation, so no \<^verbatim>\<open>then\<close> callback ever runs, and \<^verbatim>\<open>resolve\<close> is only called from
  that callback. Whatever happens afterwards, the promise stays pending; it does not
  resolve with zero totals.
\<close>

theorem empty_batch_never_resolves:
  "run [] key K retries disk evs = compressBatch [] key K retries disk \<and>
   pending (run [] key K retries disk evs) = [] \<and>
   resolve_calls (run [] key K retries disk evs) = []"
proof -
  have start: "compressBatch [] key K retries disk =
      \<lparr>index = 0, running = 0, progressIndex = 0, results_list = [], resolve_calls = [],
        disk_of = disk, calls = [], pending = [], fulfilled = []\<rparr>"
    by (simp add: compressBatch_def next_fn_stop)
  have "run [] key K retries disk evs = compressBatch [] key K retries disk"
  proof (induction evs rule: rev_induct)
    case Nil
    show ?case by (simp add: run_def)
  next
    case (snoc ev evs)
    then show ?case by (simp add: run_snoc start settle_no_pending)
  qed
  then show ?thesis by (simp add: start)
qed

theorem empty_batch_never_resolves_witness:
  "resolve_calls (run [] ''key'' (Some 5) (Some 3) Map.empty
      [(0, \<lambda>k. Response 201 (Some ''https://api.tinify.com/output/x'') NoJson (DownloadEnd [7, 7]))]) = []"
  using empty_batch_never_resolves [where key = "''key''" and K = "Some 5" and retries = "Some 3"
      and disk = Map.empty
      and evs = "[(0, \<lambda>k. Response 201 (Some ''https://api.tinify.com/output/x'') NoJson (DownloadEnd [7, 7]))]"]
  by blast




section \<open>Files that cannot be read\<close>

lemma loop_dom:
  "compressImage_loop f key M nw a res disk tr = (p, disk', tr') \<Longrightarrow> dom disk' = dom disk"
proof (induction f key M nw a res disk tr rule: compressImage_loop.induct)
  case (1 f apiKey maxAttempts nw attempt res disk tr)
  show ?case
  proof (cases "int attempt \<le> maxAttempts")
    case False
    with 1(2) show ?thesis by (subst (asm) compressImage_loop.simps) simp
  next
    case le: True
    show ?thesis
    proof (cases "compressOnce f apiKey (nw attempt) disk")
      case (Inl e)
      with le 1(2) show ?thesis by (subst (asm) compressImage_loop.simps) simp
    next
      case (Inr x)
      obtain r1 d1 where x: "x = (r1, d1)" by (cases x)
      show ?thesis
      proof (cases "success r1")
        case True
        from compressOnce_success[OF Inr[unfolded x] True] obtain imgData where
          w: "d1 = disk(f \<mapsto> imgData)" by blast
        have ne: "disk f \<noteq> None"
          using Inr compressOnce_Inl[of f apiKey "nw attempt" disk] by (cases "disk f") auto
        have "disk' = d1"
          using 1(2) le Inr x True by (subst (asm) compressImage_loop.simps) simp
        with w ne show ?thesis by (auto split: if_splits)
      next
        case ns: False
        note F = compressOnce_failure[OF Inr[unfolded x] ns]
        show ?thesis
        proof (cases "\<not> retryable r1 \<or> int attempt = maxAttempts")
          case True
          with F le Inr x ns 1(2) show ?thesis
            by (subst (asm) compressImage_loop.simps) auto
        next
          case stay: False
          have eq: "compressImage_loop f apiKey maxAttempts nw (attempt + 1) (Some r1) d1
                 (tr @ [CompressOnce attempt, LogRetry attempt maxAttempts, Sleep (attempt * 1000)]) = (p, disk', tr')"
            using 1(2) le Inr x ns stay by (subst (asm) compressImage_loop.simps) auto
          from 1(1)[OF le Inr x[symmetric] ns stay eq] F show ?thesis by simp
        qed
      qed
    qed
  qed
qed

lemma compressImage_dom:
  "compressImage f key progress retries nw disk = (p, disk', tr) \<Longrightarrow> dom disk' = dom disk"
  unfolding compressImage_def by (rule loop_dom)

lemma compressImage_exists:
  "compressImage f key progress retries nw disk = (Fulfilled (Some r), disk', tr) \<Longrightarrow> disk f \<noteq> None"
  using loop_outcome[of f key _ nw 1 None disk "[]" r disk' tr] by (simp add: compressImage_def)

lemma compressImage_missing:
  "disk f = None \<Longrightarrow> 0 \<le> or_default retries 0 \<Longrightarrow>
     compressImage f key progress retries nw disk = (Rejected (FsError f), disk, [CompressOnce 1])"
  unfolding compressImage_def
  by (subst compressImage_loop.simps) (simp add: compressOnce_def)

lemma settle_from_existing:
  assumes "from_existing disk s"
  shows "from_existing disk (settle files key K retries s ev)"
proof (cases "find (\<lambda>c. fst c = fst ev) (pending s)")
  case None
  then show ?thesis using assms by (simp add: settle_def)
next
  case (Some c)
  obtain p d tr where ci: "compressImage (fst (snd c)) key (Some (snd (snd c))) (Some retries) (snd ev) (disk_of s) = (p, d, tr)"
    by (metis prod_cases3)
  have d: "dom d = dom disk" using compressImage_dom[OF ci] assms by (simp add: from_existing_def)
  show ?thesis
  proof (cases p)
    case (Rejected e)
    with Some ci d assms show ?thesis by (simp add: settle_def from_existing_def)
  next
    case (Fulfilled v)
    have "v \<noteq> None \<longrightarrow> fst (snd c) \<in> dom disk"
    proof
      assume "v \<noteq> None"
      then obtain r where "v = Some r" by auto
      with ci Fulfilled have "disk_of s (fst (snd c)) \<noteq> None"
        by (auto dest: compressImage_exists)
      then have "fst (snd c) \<in> dom (disk_of s)" by auto
      then show "fst (snd c) \<in> dom disk" using assms by (simp add: from_existing_def)
    qed
    with Some ci d assms Fulfilled show ?thesis
      by (simp add: settle_def from_existing_def on_fulfilled_fields list_all2_appendI)
  qed
qed

lemma run_from_existing: "from_existing disk (run files key K retries disk evs)"
proof (induction evs rule: rev_induct)
  case Nil
  show ?case by (simp add: run_def compressBatch_def from_existing_def next_fn_same)
next
  case (snoc ev evs)
  then show ?case by (simp add: run_snoc settle_from_existing)
qed

lemma list_all2_all_Some:
  "list_all2 (\<lambda>v c. v \<noteq> None \<longrightarrow> P c) (map Some rs) cs \<Longrightarrow> \<forall>c \<in> set cs. P c"
  by (induction rs arbitrary: cs) (auto simp: list_all2_Cons1)

text \<open>
  \<^bold>\<open>C3.\<close> The behaviour of the code on a file that cannot be read: \<^verbatim>\<open>fs.statSync\<close>
  throws inside the promise executor of \<^verbatim>\<open>compressOnce\<close>, so the promise of
  \<^verbatim>\<open>compressImage\<close> is rejected instead of fulfilled with a failure result; and a
  batch that contains such a file never calls \<^verbatim>\<open>resolve\<close>, whatever the other files,
  the limit, the retry budget and the order of settlements are.
\<close>

theorem missing_file_never_resolves:
  assumes "f \<in> set files" "disk f = None"
  shows "(0 \<le> or_default retries 0 \<longrightarrow>
            compressImage f key progress retries nw disk
              = (Rejected (FsError f), disk, [CompressOnce 1])) \<and>
         resolve_calls (run files key K retries' disk evs) = []"
proof -
  let ?s = "run files key K retries' disk evs"
  have "resolve_calls ?s = []"
  proof (rule ccontr)
    assume rc: "resolve_calls ?s \<noteq> []"
    from resolved_all_fulfilled[OF run_inv rc] obtain rs where
      fs: "set (fulfilled ?s) = set (map (invocation_of files) [0..<length files])"
      and rs: "results_list ?s = map Some rs" by blast
    from assms(1) obtain i where i: "i < length files" "files ! i = f"
      by (auto simp: in_set_conv_nth)
    then have "invocation_of files i \<in> set (fulfilled ?s)" unfolding fs by simp
    moreover have "\<forall>c \<in> set (fulfilled ?s). fst (snd c) \<in> dom disk"
      using run_from_existing[of disk files key K retries' evs] rs
      by (intro list_all2_all_Some[of _ rs]) (simp add: from_existing_def)
    ultimately have "fst (snd (invocation_of files i)) \<in> dom disk" by blast
    with i assms(2) show False by (auto simp: invocation_of_def)
  qed
  with compressImage_missing[of disk f retries key progress nw] assms(2) show ?thesis by simp
qed

theorem missing_file_never_resolves_witness:
  "compressImage ''gone.png'' ''key'' None (Some 3) (\<lambda>k. RequestError ''ECONNRESET'')
      [''a.png'' \<mapsto> [1, 2, 3]]
     = (Rejected (FsError ''gone.png''), [''a.png'' \<mapsto> [1, 2, 3]], [CompressOnce 1]) \<and>
   resolve_calls (run [''a.png'', ''gone.png''] ''key'' (Some 5) (Some 3)
      [''a.png'' \<mapsto> [1, 2, 3]]
      [(1, \<lambda>k. RequestError ''ECONNRESET''),
       (0, \<lambda>k. Response 201 (Some ''https://api.tinify.com/output/x'') NoJson (DownloadEnd [7, 7]))]) = []"
proof -
  have h1: "''gone.png'' \<in> set [''a.png'', ''gone.png'']" by simp
  have h2: "[''a.png'' \<mapsto> [1, 2, 3 :: 8 word]] ''gone.png'' = None" by simp
  from missing_file_never_resolves [where f = "''gone.png''"
      and files = "[''a.png'', ''gone.png'']" and disk = "[''a.png'' \<mapsto> [1, 2, 3]]"
      and retries = "Some 3" and key = "''key''" and progress = None
      and nw = "\<lambda>k. RequestError ''ECONNRESET''" and K = "Some 5" and retries' = "Some 3"
      and evs = "[(1, \<lambda>k. RequestError ''ECONNRESET''),
                  (0, \<lambda>k. Response 201 (Some ''https://api.tinify.com/output/x'') NoJson (DownloadEnd [7, 7]))]", OF h1 h2]
  show ?thesis by simp
qed

section \<open>Batches of readable files complete\<close>

text \<open>The lemmas of this section are about settlements that happen: an attempt of the
  code that never settles has no network behaviour here and its invocation has no
  settlement in a run.\<close>

lemma loop_fulfils:
  "disk f \<noteq> None \<Longrightarrow> int a \<le> M \<Longrightarrow>
     \<exists>r d t. compressImage_loop f key M nw a res disk tr = (Fulfilled (Some r), d, t)"
proof (induction f key M nw a res disk tr rule: compressImage_loop.induct)
  case (1 f apiKey maxAttempts nw attempt res disk tr)
  from 1(2) obtain x where Inr: "compressOnce f apiKey (nw attempt) disk = Inr x"
    by (cases "compressOnce f apiKey (nw attempt) disk") (auto simp: compressOnce_Inl)
  obtain r1 d1 where x: "x = (r1, d1)" by (cases x)
  show ?case
  proof (cases "success r1 \<or> \<not> retryable r1 \<or> int attempt = maxAttempts")
    case True
    with 1(3) Inr x show ?thesis by (subst compressImage_loop.simps) auto
  next
    case False
    then have ns: "\<not> success r1" and stay: "\<not> (\<not> retryable r1 \<or> int attempt = maxAttempts)"
      by auto
    note F = compressOnce_failure[OF Inr[unfolded x] ns]
    have "\<exists>r d t. compressImage_loop f apiKey maxAttempts nw (attempt + 1) (Some r1) d1
            (tr @ [CompressOnce attempt, LogRetry attempt maxAttempts, Sleep (attempt * 1000)])
              = (Fulfilled (Some r), d, t)"
      using 1(2,3) F stay by (intro 1(1)[OF 1(3) Inr x[symmetric] ns stay]) auto
    with 1(3) Inr x ns stay show ?thesis by (subst compressImage_loop.simps) auto
  qed
qed

lemma compressImage_fulfils:
  "disk f \<noteq> None \<Longrightarrow> 0 \<le> or_default retries 0 \<Longrightarrow>
     \<exists>r d t. compressImage f key progress retries nw disk = (Fulfilled (Some r), d, t)"
  unfolding compressImage_def by (rule loop_fulfils) auto

lemma settle_pending_names:
  assumes inv: "batch_inv files K s" and fe: "from_existing disk s"
    and c: "c \<in> set (pending s)" and r: "0 \<le> retries"
  shows "map (map_option file_name) (results_list (settle files key K retries s (fst c, nw))) =
           map (map_option file_name) (results_list s) @
             (if disk (fst (snd c)) = None then [] else [Some (fst (snd c))])"
proof (cases "disk (fst (snd c)) = None")
  case True
  then have "disk_of s (fst (snd c)) = None"
    using fe by (auto simp: from_existing_def domIff)
  moreover have "0 \<le> or_default (Some retries) 0" using r by simp
  ultimately have "compressImage (fst (snd c)) key (Some (snd (snd c))) (Some retries) nw (disk_of s)
      = (Rejected (FsError (fst (snd c))), disk_of s, [CompressOnce 1])"
    by (rule compressImage_missing)
  with settle_pending_step[OF inv c, of key retries nw] True show ?thesis by simp
next
  case False
  then have ex: "disk_of s (fst (snd c)) \<noteq> None"
    using fe by (auto simp: from_existing_def domIff)
  have r': "0 \<le> or_default (Some retries) 0" using r by simp
  from compressImage_fulfils[of "disk_of s" "fst (snd c)" "Some retries" key "Some (snd (snd c))" nw]
    ex r' obtain r1 d t where
    ci: "compressImage (fst (snd c)) key (Some (snd (snd c))) (Some retries) nw (disk_of s)
          = (Fulfilled (Some r1), d, t)" by blast
  have "file_name r1 = fst (snd c)" using ci by (rule compressImage_file)
  with settle_pending_step[OF inv c, of key retries nw] ci False show ?thesis by simp
qed

lemma next_fn_settled:
  "set (pending s) \<union> set (fulfilled s) = set (calls s) \<Longrightarrow>
   set (pending (next_fn files K s)) \<union> set (fulfilled (next_fn files K s))
     = set (calls (next_fn files K s))"
proof (induction files K s rule: next_fn.induct)
  case (1 files maxConcurrency s)
  show ?case
  proof (cases "running s < maxConcurrency \<and> index s < length files")
    case False
    then show ?thesis using 1(2) by (simp add: next_fn_stop)
  next
    case True
    from 1(1)[OF True refl refl refl] 1(2) True show ?thesis
      by (simp add: next_fn_step)
  qed
qed

lemma next_fn_unhindered:
  assumes "set files \<subseteq> dom (disk_of s)" "set (pending s) \<union> set (fulfilled s) = set (calls s)"
    "those (results_list s) \<noteq> None" "index s \<le> length files"
  shows "unhindered files K (next_fn files K s)"
  using assms next_fn_settled[OF assms(2), of files K] next_fn_saturated[OF assms(4), of K]
  by (simp add: unhindered_def next_fn_same)

lemma those_snoc:
  "those (xs @ [Some r]) = (case those xs of None \<Rightarrow> None | Some rs \<Rightarrow> Some (rs @ [r]))"
  by (induction xs) (auto split: option.splits)

lemma settle_unhindered:
  assumes inv: "batch_inv files K s" and un: "unhindered files K s" and r: "0 \<le> or_default (Some retries) 0"
  shows "unhindered files K (settle files key K retries s ev)"
proof (cases "find (\<lambda>c. fst c = fst ev) (pending s)")
  case None
  then show ?thesis using un by (simp add: settle_def)
next
  case (Some c)
  then have cp: "c \<in> set (pending s)" by (auto dest: find_SomeD)
  then have "c \<in> set (calls s)" using inv by (auto simp: batch_inv_def)
  then have "fst (snd c) \<in> set files"
    using inv by (auto simp: batch_inv_def invocation_of_def)
  then have ex: "disk_of s (fst (snd c)) \<noteq> None" using un by (auto simp: unhindered_def)
  from compressImage_fulfils[of "disk_of s" "fst (snd c)" "Some retries" key "Some (snd (snd c))" "snd ev"]
    ex r obtain r1 d t where
    ci: "compressImage (fst (snd c)) key (Some (snd (snd c))) (Some retries) (snd ev) (disk_of s)
          = (Fulfilled (Some r1), d, t)" by blast
  let ?s0 = "s\<lparr>pending := removeAll c (pending s), disk_of := d\<rparr>"
  let ?s1 = "?s0\<lparr>running := running ?s0 - 1, results_list := results_list ?s0 @ [Some r1],
                 fulfilled := fulfilled ?s0 @ [c]\<rparr>"
  obtain rs where rs: "those (results_list s) = Some rs" using un by (auto simp: unhindered_def)
  have th: "those (results_list s @ [Some r1]) = Some (rs @ [r1])" by (simp add: those_snoc rs)
  have dm: "set files \<subseteq> dom d" using compressImage_dom[OF ci] un by (simp add: unhindered_def)
  have st: "set (pending ?s1) \<union> set (fulfilled ?s1) = set (calls ?s1)"
    using un cp by (auto simp: unhindered_def)
  have il: "index s \<le> length files" using inv by (simp add: batch_inv_def)
  have a: "unhindered files K (next_fn files K ?s1)"
    using dm st th il by (intro next_fn_unhindered) simp_all
  have b: "unhindered files K (next_fn files K (?s1\<lparr>resolve_calls := resolve_calls ?s1 @ [summarize (rs @ [r1])]\<rparr>))"
    using dm st th il by (intro next_fn_unhindered) simp_all
  from a b Some ci th show ?thesis
    by (simp add: settle_def on_fulfilled_def Let_def)
qed

lemma run_unhindered:
  assumes "set files \<subseteq> dom disk" "0 \<le> or_default (Some (retries_default retries)) 0"
  shows "unhindered files (or_default K 5) (run files key K retries disk evs)"
proof (induction evs rule: rev_induct)
  case Nil
  show ?case using assms(1) by (simp add: run_def compressBatch_def next_fn_unhindered)
next
  case (snoc ev evs)
  from settle_unhindered[OF run_inv snoc assms(2)] show ?case by (simp add: run_snoc)
qed

lemma batch_completes:
  assumes "files \<noteq> []" "set files \<subseteq> dom disk" "1 \<le> or_default K 5"
    "0 \<le> or_default (Some (retries_default retries)) 0"
  shows "resolve_calls (run files key K retries disk evs) \<noteq> [] \<longleftrightarrow>
         pending (run files key K retries disk evs) = []"
proof
  let ?s = "run files key K retries disk evs"
  have inv: "batch_inv files (or_default K 5) ?s" by (rule run_inv)
  have un: "unhindered files (or_default K 5) ?s" using assms(2,4) by (rule run_unhindered)
  show "resolve_calls ?s \<noteq> [] \<Longrightarrow> pending ?s = []"
    using resolved_all_fulfilled[OF inv] by blast
  show "resolve_calls ?s \<noteq> []" if p: "pending ?s = []"
  proof -
    have "set (fulfilled ?s) = set (calls ?s)" using un p by (simp add: unhindered_def)
    moreover have "distinct (fulfilled ?s)" "distinct (calls ?s)"
      using inv by (auto simp: batch_inv_def distinct_calls)
    ultimately have "length (fulfilled ?s) = length (calls ?s)"
      by (metis distinct_card)
    then have lf: "length (fulfilled ?s) = index ?s" using inv by (simp add: batch_inv_def)
    then have "running ?s = 0" using inv by (simp add: batch_inv_def)
    with un assms(3) have idx: "index ?s = length files" by (auto simp: unhindered_def)
    have "length (results_list ?s) = length files"
      using inv lf idx by (auto simp: batch_inv_def dest: list_all2_lengthD)
    moreover have "those (results_list ?s) \<noteq> None" using un by (simp add: unhindered_def)
    ultimately show ?thesis using inv assms(1) by (simp add: batch_inv_def)
  qed
qed

section \<open>One result per scheduled position\<close>

text \<open>
  \<^bold>\<open>C2.\<close> In every run of a batch, each position of the input list is scheduled at most
  once, in input order, and the results collected so far come from different
  invocations, each carrying the file of its invocation. With a retry budget that is
  not negative, settling a pending invocation adds exactly one result, for its file,
  when the file can be read, and none when it cannot; the invocation is pending no
  more. When \<^verbatim>\<open>compressBatch\<close> resolves, it resolves once, with the summary of its
  results; the results are as many as the input files and their \<^verbatim>\<open>file\<close> fields are
  the input list up to order: a path has as many results as it occurs in the input,
  exactly one when the input has no repeated path.
\<close>

theorem outcomes_once_per_position:
  "index (run files key K retries disk evs) \<le> length files \<and>
   calls (run files key K retries disk evs)
     = map (\<lambda>i. (i, files ! i, (i + 1, length files))) [0..<index (run files key K retries disk evs)] \<and>
   distinct (pending (run files key K retries disk evs) @ fulfilled (run files key K retries disk evs)) \<and>
   set (pending (run files key K retries disk evs) @ fulfilled (run files key K retries disk evs))
     \<subseteq> set (calls (run files key K retries disk evs)) \<and>
   list_all2 (\<lambda>v c. \<forall>r. v = Some r \<longrightarrow> file_name r = fst (snd c))
     (results_list (run files key K retries disk evs)) (fulfilled (run files key K retries disk evs)) \<and>
   (0 \<le> retries_default retries \<longrightarrow>
      (\<forall>c \<in> set (pending (run files key K retries disk evs)). \<forall>nw.
         map (map_option file_name)
             (results_list (run files key K retries disk (evs @ [(fst c, nw)]))) =
           map (map_option file_name) (results_list (run files key K retries disk evs)) @
             (if disk (fst (snd c)) = None then [] else [Some (fst (snd c))]) \<and>
         c \<notin> set (pending (run files key K retries disk (evs @ [(fst c, nw)]))))) \<and>
   (\<forall>sm \<in> set (resolve_calls (run files key K retries disk evs)).
      resolve_calls (run files key K retries disk evs) = [sm] \<and>
      sm = summarize (results sm) \<and>
      results_list (run files key K retries disk evs) = map Some (results sm) \<and>
      length (results sm) = length files \<and>
      mset (map file_name (results sm)) = mset files \<and>
      (distinct files \<longrightarrow>
         (\<forall>f \<in> set files. length (filter (\<lambda>r. file_name r = f) (results sm)) = 1)))"
proof -
  let ?s = "run files key K retries disk evs"
  have inv: "batch_inv files (or_default K 5) ?s" by (rule run_inv)
  have a: "index ?s \<le> length files"
    "calls ?s = map (\<lambda>i. (i, files ! i, (i + 1, length files))) [0..<index ?s]"
    "distinct (pending ?s @ fulfilled ?s)"
    "set (pending ?s @ fulfilled ?s) \<subseteq> set (calls ?s)"
    "list_all2 (\<lambda>v c. \<forall>r. v = Some r \<longrightarrow> file_name r = fst (snd c)) (results_list ?s) (fulfilled ?s)"
  proof -
    have io: "invocation_of files = (\<lambda>i. (i, files ! i, (i + 1, length files)))"
      by (simp add: invocation_of_def fun_eq_iff)
    show "index ?s \<le> length files" using inv unfolding batch_inv_def by blast
    show "calls ?s = map (\<lambda>i. (i, files ! i, (i + 1, length files))) [0..<index ?s]"
      using inv unfolding batch_inv_def io by blast
    show "distinct (pending ?s @ fulfilled ?s)" using inv unfolding batch_inv_def by blast
    show "set (pending ?s @ fulfilled ?s) \<subseteq> set (calls ?s)"
      using inv unfolding batch_inv_def by blast
    show "list_all2 (\<lambda>v c. \<forall>r. v = Some r \<longrightarrow> file_name r = fst (snd c)) (results_list ?s) (fulfilled ?s)"
      using inv unfolding batch_inv_def by blast
  qed
  have fe: "from_existing disk ?s" by (rule run_from_existing)
  have b: "0 \<le> retries_default retries \<longrightarrow>
      (\<forall>c \<in> set (pending ?s). \<forall>nw.
         map (map_option file_name)
             (results_list (run files key K retries disk (evs @ [(fst c, nw)]))) =
           map (map_option file_name) (results_list ?s) @
             (if disk (fst (snd c)) = None then [] else [Some (fst (snd c))]) \<and>
         c \<notin> set (pending (run files key K retries disk (evs @ [(fst c, nw)]))))"
    using settle_pending_names [OF inv fe] settle_pending_step [OF inv]
    by (simp add: run_snoc)
  have c: "\<forall>sm \<in> set (resolve_calls ?s).
      resolve_calls ?s = [sm] \<and> sm = summarize (results sm) \<and>
      results_list ?s = map Some (results sm) \<and>
      length (results sm) = length files \<and>
      mset (map file_name (results sm)) = mset files \<and>
      (distinct files \<longrightarrow>
         (\<forall>f \<in> set files. length (filter (\<lambda>r. file_name r = f) (results sm)) = 1))"
  proof
    fix sm assume sm: "sm \<in> set (resolve_calls ?s)"
    from sm inv obtain rs where rs: "those (results_list ?s) = Some rs"
      "resolve_calls ?s = [summarize rs]" "length rs = length files"
      by (auto simp: batch_inv_def)
    have smeq: "sm = summarize rs" using sm rs by simp
    have res: "results sm = rs" by (simp add: smeq summarize_def)
    have ne: "resolve_calls ?s \<noteq> []" using sm by auto
    have fs: "set (fulfilled ?s) = set (map (invocation_of files) [0..<length files])"
      using resolved_all_fulfilled[OF inv ne] by blast
    have l2: "list_all2 (\<lambda>v c. \<forall>r. v = Some r \<longrightarrow> file_name r = fst (snd c)) (map Some rs) (fulfilled ?s)"
      using a(5) those_map_Some[OF rs(1)] by simp
    have "distinct (fulfilled ?s)" using a(3) by simp
    then have "mset (fulfilled ?s) = mset (map (invocation_of files) [0..<length files])"
      using fs distinct_calls[of files "length files"] set_eq_iff_mset_eq_distinct by blast
    then have "mset (map (fst \<circ> snd) (fulfilled ?s))
                 = mset (map (fst \<circ> snd) (map (invocation_of files) [0..<length files]))"
      by (metis mset_map)
    then have m: "mset (map file_name rs) = mset files"
      unfolding list_all2_file_names[OF l2] files_of_calls .
    have one: "distinct files \<longrightarrow>
            (\<forall>f \<in> set files. length (filter (\<lambda>r. file_name r = f) rs) = 1)"
      using once_each [OF m] by blast
    show "resolve_calls ?s = [sm] \<and> sm = summarize (results sm) \<and>
      results_list ?s = map Some (results sm) \<and>
      length (results sm) = length files \<and>
      mset (map file_name (results sm)) = mset files \<and>
      (distinct files \<longrightarrow>
         (\<forall>f \<in> set files. length (filter (\<lambda>r. file_name r = f) (results sm)) = 1))"
      using rs(2,3) smeq res m one those_map_Some[OF rs(1)] by simp
  qed
  from a b c show ?thesis by blast
qed

theorem outcomes_once_per_position_witness:
  "calls (run [''a.png'', ''b.png''] ''key'' (Some 1) None two_images [(0, net_done)])
     = [(0, ''a.png'', 1, 2), (1, ''b.png'', 2, 2)] \<and>
   map (map_option file_name)
     (results_list (run [''a.png'', ''b.png''] ''key'' (Some 1) None two_images
                      [(0, net_done), (1, net_unsupported)]))
     = [Some ''a.png'', Some ''b.png''] \<and>
   resolve_calls (run [''a.png'', ''b.png''] ''key'' (Some 1) None two_images
                   [(0, net_done), (1, net_unsupported)])
     = [\<lparr>totalOldSize = 4, totalNewSize = 3, failCount = 1,
         results = [\<lparr>file_name = ''a.png'', oldSize = 3, newSize = 2, success = True,
                      retryable = False, errorMsg = None\<rparr>,
                    \<lparr>file_name = ''b.png'', oldSize = 1, newSize = 1, success = False,
                      retryable = False, errorMsg = Some ''HTTP 415''\<rparr>]\<rparr>] \<and>
   mset (map file_name
          [\<lparr>file_name = ''a.png'', oldSize = 3, newSize = 2, success = True,
             retryable = False, errorMsg = None\<rparr>,
           \<lparr>file_name = ''b.png'', oldSize = 1, newSize = 1, success = False,
             retryable = False, errorMsg = Some ''HTTP 415''\<rparr>])
     = mset [''a.png'', ''b.png'']"
proof -
  let ?sm = "\<lparr>totalOldSize = 4, totalNewSize = 3, failCount = 1,
         results = [\<lparr>file_name = ''a.png'', oldSize = 3, newSize = 2, success = True,
                      retryable = False, errorMsg = None\<rparr>,
                    \<lparr>file_name = ''b.png'', oldSize = 1, newSize = 1, success = False,
                      retryable = False, errorMsg = Some ''HTTP 415''\<rparr>]\<rparr>"
  have p: "(1, ''b.png'', 2, 2)
             \<in> set (pending (run [''a.png'', ''b.png''] ''key'' (Some 1) None two_images
                                 [(0, net_done)]))"
    and r1: "results_list (run [''a.png'', ''b.png''] ''key'' (Some 1) None two_images
                             [(0, net_done)])
             = [Some \<lparr>file_name = ''a.png'', oldSize = 3, newSize = 2, success = True,
               retryable = False, errorMsg = None\<rparr>]"
    and i1: "index (run [''a.png'', ''b.png''] ''key'' (Some 1) None two_images
                      [(0, net_done)]) = 2"
    by (simp_all add: run_eval net_done_def net_unsupported_def two_images_def)
  have q: "0 \<le> retries_default None" by simp
  have s: "?sm \<in> set (resolve_calls (run [''a.png'', ''b.png''] ''key'' (Some 1) None two_images
                   [(0, net_done), (1, net_unsupported)]))"
    by (simp add: run_eval net_done_def net_unsupported_def two_images_def)
  have u: "[0..<2] = [0, Suc 0]" by (simp add: upt_rec)
  note t1 = outcomes_once_per_position [where files = "[''a.png'', ''b.png'']" and key = "''key''"
      and K = "Some 1" and retries = None and disk = two_images and evs = "[(0, net_done)]"]
  note t2 = outcomes_once_per_position [where files = "[''a.png'', ''b.png'']" and key = "''key''"
      and K = "Some 1" and retries = None and disk = two_images
      and evs = "[(0, net_done), (1, net_unsupported)]"]
  have a: "calls (run [''a.png'', ''b.png''] ''key'' (Some 1) None two_images [(0, net_done)])
     = [(0, ''a.png'', 1, 2), (1, ''b.png'', 2, 2)]"
    using t1 [THEN conjunct2, THEN conjunct1] unfolding i1 u by simp
  have step: "0 \<le> retries_default None \<longrightarrow>
    (\<forall>c \<in> set (pending (run [''a.png'', ''b.png''] ''key'' (Some 1) None two_images
                           [(0, net_done)])). \<forall>nw.
      map (map_option file_name)
          (results_list (run [''a.png'', ''b.png''] ''key'' (Some 1) None two_images
                           ([(0, net_done)] @ [(fst c, nw)]))) =
        map (map_option file_name)
          (results_list (run [''a.png'', ''b.png''] ''key'' (Some 1) None two_images
                           [(0, net_done)])) @
          (if two_images (fst (snd c)) = None then [] else [Some (fst (snd c))]) \<and>
      c \<notin> set (pending (run [''a.png'', ''b.png''] ''key'' (Some 1) None two_images
                            ([(0, net_done)] @ [(fst c, nw)]))))"
    using t1 by blast
  have b: "map (map_option file_name)
     (results_list (run [''a.png'', ''b.png''] ''key'' (Some 1) None two_images
                      [(0, net_done), (1, net_unsupported)]))
     = [Some ''a.png'', Some ''b.png'']"
  proof -
    have nb: "two_images ''b.png'' \<noteq> None" by (simp add: two_images_def)
    show ?thesis
      using step [rule_format, OF q p, of net_unsupported] by (simp add: r1 nb)
  qed
  have c: "resolve_calls (run [''a.png'', ''b.png''] ''key'' (Some 1) None two_images
                   [(0, net_done), (1, net_unsupported)]) = [?sm] \<and>
           mset (map file_name (results ?sm)) = mset [''a.png'', ''b.png'']"
    using t2 s by blast
  from a b c show ?thesis by simp
qed

text \<open>
  The batch does not remove repeated paths: a path given twice is scheduled twice, both
  invocations run at the same time, and the batch resolves with two results for it.
\<close>

theorem repeated_path_two_outcomes:
  "pending (compressBatch [''a.png'', ''a.png''] ''key'' (Some 5) (Some 0) one_image)
     = [(0, ''a.png'', 1, 2), (1, ''a.png'', 2, 2)] \<and>
   resolve_calls (run [''a.png'', ''a.png''] ''key'' (Some 5) (Some 0) one_image
                    [(0, net_down), (1, net_down)])
     = [\<lparr>totalOldSize = 6, totalNewSize = 6, failCount = 2,
         results = [\<lparr>file_name = ''a.png'', oldSize = 3, newSize = 3, success = False,
                      retryable = True, errorMsg = Some ''ECONNRESET''\<rparr>,
                    \<lparr>file_name = ''a.png'', oldSize = 3, newSize = 3, success = False,
                      retryable = True, errorMsg = Some ''ECONNRESET''\<rparr>]\<rparr>] \<and>
   count_list (map file_name (results (hd (resolve_calls
       (run [''a.png'', ''a.png''] ''key'' (Some 5) (Some 0) one_image
          [(0, net_down), (1, net_down)]))))) ''a.png'' = 2"
  by (simp add: run_eval net_down_def one_image_def)

end
